theory Spec2Isabelle
  imports Main
begin

section \<open>JSON values\<close>

text \<open>
  The store keeps Python values that the \<^verbatim>\<open>json\<close> module can write: \<^verbatim>\<open>None\<close>, booleans,
  integers, floats, strings, lists and string-keyed dictionaries. A Python \<^verbatim>\<open>dict\<close> keeps
  its keys in insertion order and never holds a key twice, so it is an association list
  whose keys are distinct (\<open>wf_json\<close> below). A string is the list of the bytes of its
  UTF-8 encoding. A float is kept as the decimal literal that denotes it, the one that
  \<^verbatim>\<open>float.__repr__\<close> writes and \<^verbatim>\<open>float\<close> reads back; the binary rounding of
  floating-point numbers is not part of this development.
\<close>

datatype json = JNull | JBool bool | JInt int | JFloat string | JStr string
  | JArr "json list" | JObj "(string \<times> json) list"

section \<open>Dictionaries\<close>

text \<open>Python's \<^verbatim>\<open>d[k] = v\<close>, \<^verbatim>\<open>del d[k]\<close>, \<^verbatim>\<open>k in d\<close>, \<^verbatim>\<open>d.get(k, default)\<close> and
  \<^verbatim>\<open>d.update(other)\<close> on insertion-ordered dictionaries.\<close>

fun dict_setitem :: "('k \<times> 'v) list \<Rightarrow> 'k \<Rightarrow> 'v \<Rightarrow> ('k \<times> 'v) list" where
  "dict_setitem [] k v = [(k, v)]"
| "dict_setitem ((k', v') # d) k v =
     (if k' = k then (k, v) # d else (k', v') # dict_setitem d k v)"

definition dict_update :: "('k \<times> 'v) list \<Rightarrow> ('k \<times> 'v) list \<Rightarrow> ('k \<times> 'v) list" where
  "dict_update d updates = foldl (\<lambda>acc (k, v). dict_setitem acc k v) d updates"

fun dict_delitem :: "('k \<times> 'v) list \<Rightarrow> 'k \<Rightarrow> ('k \<times> 'v) list" where
  "dict_delitem [] k = []"
| "dict_delitem ((k', v') # d) k = (if k' = k then d else (k', v') # dict_delitem d k)"

definition dict_contains :: "('k \<times> 'v) list \<Rightarrow> 'k \<Rightarrow> bool" where
  "dict_contains d k = (k \<in> set (map fst d))"

definition dict_get :: "('k \<times> 'v) list \<Rightarrow> 'k \<Rightarrow> 'v \<Rightarrow> 'v" where
  "dict_get d k dflt = (case map_of d k of Some v \<Rightarrow> v | None \<Rightarrow> dflt)"

section \<open>Exceptions and the limits of the interpreter\<close>

text \<open>
  \<open>OSError e\<close> is an exception raised by a call of the operating system, with its
  cause (\<open>ENOENT\<close> is \<^verbatim>\<open>FileNotFoundError\<close>, \<open>EACCES\<close> is \<^verbatim>\<open>PermissionError\<close>).
  \<open>IOError p e\<close> is the exception that \<^verbatim>\<open>_save_data\<close> raises in its \<^verbatim>\<open>except\<close> clause:
  its message names the store's path \<open>p\<close> and the exception \<open>e\<close> it has caught.
  \<open>JSONDecodeError\<close> is the decoder's exception for a text that is not a JSON document;
  \<open>RecursionError\<close> and \<open>ValueError\<close> are what the interpreter raises when the
  encoder or the decoder nests too deep or meets an integer of too many digits.
\<close>

datatype os_error = ENOENT | EACCES | EISDIR | ENOTDIR | ENOSPC | EIO

datatype exn =
    OSError os_error
  | IOError string os_error
  | UnicodeDecodeError
  | UnicodeEncodeError
  | JSONDecodeError
  | RecursionError
  | ValueError
  | TypeError
  | AttributeError

text \<open>
  What the interpreter allows at the moment of a call. \<open>decode_depth\<close> and
  \<open>encode_depth\<close> are how many lists and dictionaries, one inside the other, the
  decoder and the encoder can still enter before \<^verbatim>\<open>RecursionError\<close>: the recursion
  limit less the depth of the stack at the call, in the units of each. An integer of
  more than \<open>max_str_digits\<close> digits is not converted from or to text
  (\<^verbatim>\<open>sys.get_int_max_str_digits()\<close>, 4300 unless changed; 0 is no limit).
\<close>

record limits =
  decode_depth :: nat
  encode_depth :: nat
  max_str_digits :: nat

definition too_many_digits :: "limits \<Rightarrow> nat \<Rightarrow> bool" where
  "too_many_digits lim n = (max_str_digits lim \<noteq> 0 \<and> max_str_digits lim < n)"

text \<open>The number of lists and dictionaries a value has one inside the other.\<close>

fun depth :: "json \<Rightarrow> nat"
  and depth_list :: "json list \<Rightarrow> nat"
  and depth_items :: "(string \<times> json) list \<Rightarrow> nat"
where
  "depth (JArr xs) = Suc (depth_list xs)"
| "depth (JObj kvs) = Suc (depth_items kvs)"
| "depth v = 0"
| "depth_list [] = 0"
| "depth_list (x # xs) = max (depth x) (depth_list xs)"
| "depth_items [] = 0"
| "depth_items ((k, v) # kvs) = max (depth v) (depth_items kvs)"

section \<open>The encoder: \<^verbatim>\<open>json.dump(data, file, indent=4, ensure_ascii=False)\<close>\<close>

text \<open>
  The encoder of the standard library, as \<^verbatim>\<open>_save_data\<close> calls it: items on lines of
  their own, indented by four spaces for each level, separated by \<^verbatim>\<open>,\<close>; keys and values
  separated by \<^verbatim>\<open>: \<close>; the empty list and the empty dictionary as \<^verbatim>\<open>[]\<close> and \<^verbatim>\<open>{}\<close>.
  With \<^verbatim>\<open>ensure_ascii=False\<close> a string is written as it is, between double quotes, except
  for the double quote, the backslash and the characters below \<^verbatim>\<open>0x20\<close>, which are escaped.
\<close>

abbreviation (input) DQUOTE :: char where "DQUOTE \<equiv> CHR 0x22"

abbreviation (input) BSLASH :: char where "BSLASH \<equiv> CHR 0x5C"

abbreviation (input) NEWLINE :: char where "NEWLINE \<equiv> CHR 0x0A"

definition hex_digit :: "nat \<Rightarrow> char" where
  "hex_digit n = ''0123456789abcdef'' ! (n mod 16)"

definition escape_char :: "char \<Rightarrow> string" where
  "escape_char c =
     (if c = BSLASH then [BSLASH, BSLASH]
      else if c = DQUOTE then [BSLASH, DQUOTE]
      else if c = CHR 0x08 then [BSLASH, CHR ''b'']
      else if c = CHR 0x0C then [BSLASH, CHR ''f'']
      else if c = CHR 0x0A then [BSLASH, CHR ''n'']
      else if c = CHR 0x0D then [BSLASH, CHR ''r'']
      else if c = CHR 0x09 then [BSLASH, CHR ''t'']
      else if (of_char c :: nat) < 0x20
        then [BSLASH, CHR ''u'', CHR ''0'', CHR ''0'',
              hex_digit (of_char c div 16), hex_digit (of_char c mod 16)]
      else [c])"

definition encode_basestring :: "string \<Rightarrow> string" where
  "encode_basestring s = DQUOTE # concat (map escape_char s) @ [DQUOTE]"

fun digits :: "nat \<Rightarrow> string" where
  "digits n = (if n < 10 then [char_of (48 + n)] else digits (n div 10) @ [char_of (48 + n mod 10)])"

definition int_repr :: "int \<Rightarrow> string" where
  "int_repr i = (if i < 0 then CHR ''-'' # digits (nat (- i)) else digits (nat i))"

definition newline_indent :: "nat \<Rightarrow> string" where
  "newline_indent lvl = NEWLINE # replicate (4 * lvl) CHR '' ''"

fun iterencode :: "nat \<Rightarrow> json \<Rightarrow> string"
  and iterencode_list :: "nat \<Rightarrow> json list \<Rightarrow> string"
  and iterencode_dict :: "nat \<Rightarrow> (string \<times> json) list \<Rightarrow> string"
where
  "iterencode lvl JNull = ''null''"
| "iterencode lvl (JBool b) = (if b then ''true'' else ''false'')"
| "iterencode lvl (JInt i) = int_repr i"
| "iterencode lvl (JFloat lit) = lit"
| "iterencode lvl (JStr s) = encode_basestring s"
| "iterencode lvl (JArr xs) =
     (if xs = [] then ''[]''
      else ''['' @ newline_indent (lvl + 1) @ iterencode_list (lvl + 1) xs
           @ newline_indent lvl @ '']'')"
| "iterencode lvl (JObj kvs) =
     (if kvs = [] then ''{}''
      else ''{'' @ newline_indent (lvl + 1) @ iterencode_dict (lvl + 1) kvs
           @ newline_indent lvl @ ''}'')"
| "iterencode_list lvl [] = []"
| "iterencode_list lvl [x] = iterencode lvl x"
| "iterencode_list lvl (x # y # xs) =
     iterencode lvl x @ '','' @ newline_indent lvl @ iterencode_list lvl (y # xs)"
| "iterencode_dict lvl [] = []"
| "iterencode_dict lvl [(k, v)] = encode_basestring k @ '': '' @ iterencode lvl v"
| "iterencode_dict lvl ((k, v) # y # kvs) =
     encode_basestring k @ '': '' @ iterencode lvl v @ '','' @ newline_indent lvl
       @ iterencode_dict lvl (y # kvs)"

definition json_dumps :: "json \<Rightarrow> string" where
  "json_dumps v = iterencode 0 v"

text \<open>
  \<^verbatim>\<open>json.dump\<close> is a generator of pieces of text, written to the file one after the
  other, and an exception in it ends the writing. \<open>iterdump\<close> gives the text that is
  produced and the exception, if any, that ends it: \<^verbatim>\<open>RecursionError\<close> before a list or
  a dictionary that is one too deep, \<^verbatim>\<open>ValueError\<close> before an integer of too many
  digits. When nothing stops it, it produces \<open>iterencode\<close> (lemma \<open>iterdump_complete\<close>).
  The text before an exception is given as far as the place of the exception; Python
  writes it piece by piece, and the piece that holds the bracket or the comma before
  an item of a list is lost with an integer that raises.
\<close>

definition then_dump :: "string \<times> exn option \<Rightarrow> string \<times> exn option \<Rightarrow> string \<times> exn option" where
  "then_dump a b =
     (case a of
        (s, Some e) \<Rightarrow> (s, Some e)
      | (s, None) \<Rightarrow> (case b of (t, e) \<Rightarrow> (s @ t, e)))"

fun iterdump :: "limits \<Rightarrow> nat \<Rightarrow> nat \<Rightarrow> json \<Rightarrow> string \<times> exn option"
  and iterdump_list :: "limits \<Rightarrow> nat \<Rightarrow> nat \<Rightarrow> json list \<Rightarrow> string \<times> exn option"
  and iterdump_dict :: "limits \<Rightarrow> nat \<Rightarrow> nat \<Rightarrow> (string \<times> json) list \<Rightarrow> string \<times> exn option"
where
  "iterdump lim d lvl JNull = (''null'', None)"
| "iterdump lim d lvl (JBool b) = ((if b then ''true'' else ''false''), None)"
| "iterdump lim d lvl (JInt i) =
     (if too_many_digits lim (length (digits (nat \<bar>i\<bar>))) then ([], Some ValueError)
      else (int_repr i, None))"
| "iterdump lim d lvl (JFloat lit) = (lit, None)"
| "iterdump lim d lvl (JStr s) = (encode_basestring s, None)"
| "iterdump lim d lvl (JArr xs) =
     (if d = 0 then ([], Some RecursionError)
      else if xs = [] then (''[]'', None)
      else then_dump (''['' @ newline_indent (lvl + 1), None)
             (then_dump (iterdump_list lim (d - 1) (lvl + 1) xs)
                (newline_indent lvl @ '']'', None)))"
| "iterdump lim d lvl (JObj kvs) =
     (if d = 0 then ([], Some RecursionError)
      else if kvs = [] then (''{}'', None)
      else then_dump (''{'' @ newline_indent (lvl + 1), None)
             (then_dump (iterdump_dict lim (d - 1) (lvl + 1) kvs)
                (newline_indent lvl @ ''}'', None)))"
| "iterdump_list lim d lvl [] = ([], None)"
| "iterdump_list lim d lvl [x] = iterdump lim d lvl x"
| "iterdump_list lim d lvl (x # y # xs) =
     then_dump (iterdump lim d lvl x)
       (then_dump ('','' @ newline_indent lvl, None) (iterdump_list lim d lvl (y # xs)))"
| "iterdump_dict lim d lvl [] = ([], None)"
| "iterdump_dict lim d lvl [(k, v)] =
     then_dump (encode_basestring k @ '': '', None) (iterdump lim d lvl v)"
| "iterdump_dict lim d lvl ((k, v) # y # kvs) =
     then_dump (encode_basestring k @ '': '', None)
       (then_dump (iterdump lim d lvl v)
          (then_dump ('','' @ newline_indent lvl, None) (iterdump_dict lim d lvl (y # kvs))))"

definition json_dump :: "limits \<Rightarrow> json \<Rightarrow> string \<times> exn option" where
  "json_dump lim v = iterdump lim (encode_depth lim) 0 v"

section \<open>The decoder: \<^verbatim>\<open>json.load(file)\<close>\<close>

text \<open>
  The decoder of the standard library. \<open>scan_once\<close> reads one value at the start of the
  text and returns it with the text that follows; \<open>None\<close> is the decoder's
  \<^verbatim>\<open>JSONDecodeError\<close>. White space is skipped where the grammar allows it, a key that
  occurs twice in an object keeps its first position and its last value, and the text
  must end after the value. The decoder raises \<^verbatim>\<open>RecursionError\<close> when it meets the
  start of a list or of a dictionary and has no depth left, and \<^verbatim>\<open>ValueError\<close> when it
  meets an integer of too many digits; the text before is in order when it does, and
  the text after is not looked at. The translation of line ends by a text file is not
  modelled: it maps white space to white space.
\<close>

definition is_ws :: "char \<Rightarrow> bool" where
  "is_ws c = (c = CHR '' '' \<or> c = CHR 0x09 \<or> c = CHR 0x0A \<or> c = CHR 0x0D)"

definition skip_ws :: "string \<Rightarrow> string" where
  "skip_ws s = dropWhile is_ws s"

definition is_digit :: "char \<Rightarrow> bool" where
  "is_digit c = (48 \<le> (of_char c :: nat) \<and> (of_char c :: nat) \<le> 57)"

definition digit_val :: "char \<Rightarrow> nat" where
  "digit_val c = of_char c - 48"

definition nat_of_digits :: "string \<Rightarrow> nat" where
  "nat_of_digits ds = foldl (\<lambda>a c. 10 * a + digit_val c) 0 ds"

definition hex_val :: "char \<Rightarrow> nat option" where
  "hex_val c =
     (let n = (of_char c :: nat) in
      if 48 \<le> n \<and> n \<le> 57 then Some (n - 48)
      else if 65 \<le> n \<and> n \<le> 70 then Some (n - 55)
      else if 97 \<le> n \<and> n \<le> 102 then Some (n - 87)
      else None)"

definition decode_uXXXX :: "char \<Rightarrow> char \<Rightarrow> char \<Rightarrow> char \<Rightarrow> nat option" where
  "decode_uXXXX h1 h2 h3 h4 =
     (case (hex_val h1, hex_val h2, hex_val h3, hex_val h4) of
        (Some a, Some b, Some c, Some d) \<Rightarrow> Some (((a * 16 + b) * 16 + c) * 16 + d)
      | _ \<Rightarrow> None)"

definition utf8_encode :: "nat \<Rightarrow> string" where
  "utf8_encode cp =
     (if cp < 0x80 then [char_of cp]
      else if cp < 0x800 then [char_of (0xC0 + cp div 64), char_of (0x80 + cp mod 64)]
      else if cp < 0x10000 then
        [char_of (0xE0 + cp div 4096), char_of (0x80 + cp div 64 mod 64),
         char_of (0x80 + cp mod 64)]
      else
        [char_of (0xF0 + cp div 262144), char_of (0x80 + cp div 4096 mod 64),
         char_of (0x80 + cp div 64 mod 64), char_of (0x80 + cp mod 64)])"

definition backslash :: "char \<Rightarrow> char option" where
  "backslash e =
     (if e = DQUOTE then Some DQUOTE
      else if e = BSLASH then Some BSLASH
      else if e = CHR ''/'' then Some (CHR ''/'')
      else if e = CHR ''b'' then Some (CHR 0x08)
      else if e = CHR ''f'' then Some (CHR 0x0C)
      else if e = CHR ''n'' then Some (CHR 0x0A)
      else if e = CHR ''r'' then Some (CHR 0x0D)
      else if e = CHR ''t'' then Some (CHR 0x09)
      else None)"

definition emit :: "string \<Rightarrow> (string \<times> string) option \<Rightarrow> (string \<times> string) option" where
  "emit cs r = (case r of None \<Rightarrow> None | Some (s, rest) \<Rightarrow> Some (cs @ s, rest))"

definition scan_unicode :: "string \<Rightarrow> (string \<times> string) option" where
  "scan_unicode r =
     (case r of
        h1 # h2 # h3 # h4 # r' \<Rightarrow>
          (case decode_uXXXX h1 h2 h3 h4 of
             None \<Rightarrow> None
           | Some uni \<Rightarrow>
               if 0xD800 \<le> uni \<and> uni \<le> 0xDBFF \<and> take 2 r' = [BSLASH, CHR ''u''] then
                 (case drop 2 r' of
                    g1 # g2 # g3 # g4 # r3 \<Rightarrow>
                      (case decode_uXXXX g1 g2 g3 g4 of
                         None \<Rightarrow> None
                       | Some uni2 \<Rightarrow>
                           if 0xDC00 \<le> uni2 \<and> uni2 \<le> 0xDFFF then
                             Some (utf8_encode
                               (0x10000 + (uni - 0xD800) * 1024 + (uni2 - 0xDC00)), r3)
                           else Some (utf8_encode uni, r'))
                  | _ \<Rightarrow> None)
               else Some (utf8_encode uni, r'))
      | _ \<Rightarrow> None)"

lemma drop_eq_shorter: "drop n xs = ys \<Longrightarrow> length ys \<le> length xs"
  by auto

lemma scan_unicode_shorter: "scan_unicode r = Some (x, r') \<Longrightarrow> length r' < length r"
  unfolding scan_unicode_def
  by (auto split: list.splits option.splits if_splits dest!: drop_eq_shorter)

function scanstring :: "string \<Rightarrow> (string \<times> string) option" where
  "scanstring [] = None"
| "scanstring (c # cs) =
     (if c = DQUOTE then Some ([], cs)
      else if c = BSLASH then
        (case cs of
           [] \<Rightarrow> None
         | e # r \<Rightarrow>
             if e = CHR ''u'' then
               (case scan_unicode r of
                  None \<Rightarrow> None
                | Some (ch, r') \<Rightarrow> emit ch (scanstring r'))
             else
               (case backslash e of
                  None \<Rightarrow> None
                | Some ch \<Rightarrow> emit [ch] (scanstring r)))
      else if (of_char c :: nat) < 0x20 then None
      else emit [c] (scanstring cs))"
  by pat_completeness auto

termination
  by (relation "measure length") (auto dest: scan_unicode_shorter)

lemma emit_Some: "emit cs r = Some (x, rest) \<longleftrightarrow> (\<exists>s. r = Some (s, rest) \<and> x = cs @ s)"
  by (auto simp: emit_def split: option.splits)

lemma scanstring_shorter: "scanstring s = Some (x, r) \<Longrightarrow> length r < length s"
proof (induction s arbitrary: x r rule: scanstring.induct)
  case 1
  then show ?case by simp
next
  case (2 c cs)
  show ?case
  proof (cases "c = DQUOTE")
    case True
    with "2.prems" show ?thesis by simp
  next
    case nq: False
    show ?thesis
    proof (cases "c = BSLASH")
      case True
      with nq "2.prems" obtain e r0 where cs: "cs = e # r0"
        by (cases cs) auto
      show ?thesis
      proof (cases "e = CHR ''u''")
        case u: True
        with True nq cs "2.prems" obtain ch r' s' where
          su: "scan_unicode r0 = Some (ch, r')" and rec: "scanstring r' = Some (s', r)"
          by (auto simp: emit_Some split: option.splits)
        from "2.IH"(1)[OF nq True cs u su[symmetric, THEN sym] refl rec]
        have "length r < length r'" .
        with scan_unicode_shorter[OF su] cs show ?thesis by simp
      next
        case nu: False
        with True nq cs "2.prems" obtain ch s' where
          b: "backslash e = Some ch" and rec: "scanstring r0 = Some (s', r)"
          by (auto simp: emit_Some split: option.splits)
        from "2.IH"(2)[OF nq True cs nu b rec]
        show ?thesis using cs by simp
      qed
    next
      case nb: False
      with nq "2.prems" obtain s' where lo: "\<not> (of_char c :: nat) < 0x20"
        and rec: "scanstring cs = Some (s', r)"
        by (auto simp: emit_Some split: if_splits)
      from "2.IH"(3)[OF nq nb lo rec] show ?thesis by simp
    qed
  qed
qed

definition match_number :: "string \<Rightarrow> (string \<times> string \<times> string \<times> string) option" where
  "match_number s =
     (let (sign, s1) = (case s of c # r \<Rightarrow> if c = CHR ''-'' then ([c], r) else ([], s) | [] \<Rightarrow> ([], s)) in
      case s1 of
        [] \<Rightarrow> None
      | d # r \<Rightarrow>
          if \<not> is_digit d then None
          else
            let (ipart, s2) =
                  (if d = CHR ''0'' then ([d], r) else (d # takeWhile is_digit r, dropWhile is_digit r));
                (frac, s3) =
                  (case s2 of
                     p # r2 \<Rightarrow>
                       if p = CHR ''.'' \<and> takeWhile is_digit r2 \<noteq> []
                       then (p # takeWhile is_digit r2, dropWhile is_digit r2)
                       else ([], s2)
                   | [] \<Rightarrow> ([], s2));
                (ex, s4) =
                  (case s3 of
                     e # r3 \<Rightarrow>
                       if e = CHR ''e'' \<or> e = CHR ''E'' then
                         (let (sg, r4) =
                                (case r3 of
                                   g # r5 \<Rightarrow> if g = CHR ''-'' \<or> g = CHR ''+'' then ([g], r5) else ([], r3)
                                 | [] \<Rightarrow> ([], r3))
                          in if takeWhile is_digit r4 \<noteq> []
                             then (e # sg @ takeWhile is_digit r4, dropWhile is_digit r4)
                             else ([], s3))
                       else ([], s3)
                   | [] \<Rightarrow> ([], s3))
            in Some (sign @ ipart, frac, ex, s4))"

definition parse_int :: "string \<Rightarrow> int" where
  "parse_int s =
     (case s of
        c # r \<Rightarrow> if c = CHR ''-'' then - int (nat_of_digits r) else int (nat_of_digits s)
      | [] \<Rightarrow> 0)"

definition scan_atom :: "limits \<Rightarrow> string \<Rightarrow> exn + json \<times> string" where
  "scan_atom lim s =
     (if take 4 s = ''null'' then Inr (JNull, drop 4 s)
      else if take 4 s = ''true'' then Inr (JBool True, drop 4 s)
      else if take 5 s = ''false'' then Inr (JBool False, drop 5 s)
      else
        (case match_number s of
           Some (integer, frac, ex, r) \<Rightarrow>
             if frac \<noteq> [] \<or> ex \<noteq> [] then Inr (JFloat (integer @ frac @ ex), r)
             else if too_many_digits lim (length (filter is_digit integer)) then Inl ValueError
             else Inr (JInt (parse_int integer), r)
         | None \<Rightarrow>
             if take 3 s = ''NaN'' then Inr (JFloat ''NaN'', drop 3 s)
             else if take 8 s = ''Infinity'' then Inr (JFloat ''Infinity'', drop 8 s)
             else if take 9 s = ''-Infinity'' then Inr (JFloat ''-Infinity'', drop 9 s)
             else Inl JSONDecodeError))"

lemma skip_ws_length: "length (skip_ws s) \<le> length s"
  by (simp add: skip_ws_def length_dropWhile_le)

lemma skip_ws_Cons_shorter: "skip_ws s = c # r \<Longrightarrow> length r < length s"
  using skip_ws_length [of s] by simp

text \<open>
  \<open>array_items\<close> and \<open>object_items\<close> are the loops of the decoder over the items of an
  array and of an object; \<open>acc\<close> holds the items read so far. Each compares the length of
  the text before and after the value it has read: the value takes at least one
  character, so the test never fails (lemma \<open>scan_shorter\<close> below), and the recursion ends.
\<close>

function scan_once :: "limits \<Rightarrow> nat \<Rightarrow> string \<Rightarrow> exn + json \<times> string"
  and array_items :: "limits \<Rightarrow> nat \<Rightarrow> string \<Rightarrow> json list \<Rightarrow> exn + json \<times> string"
  and object_items ::
    "limits \<Rightarrow> nat \<Rightarrow> string \<Rightarrow> (string \<times> json) list \<Rightarrow> exn + json \<times> string"
where
  "scan_once lim d s =
     (case s of
        [] \<Rightarrow> Inl JSONDecodeError
      | c # cs \<Rightarrow>
          if c = DQUOTE then
            (case scanstring cs of
               None \<Rightarrow> Inl JSONDecodeError
             | Some (x, r) \<Rightarrow> Inr (JStr x, r))
          else if c = CHR ''{'' then
            (if d = 0 then Inl RecursionError
             else
               (case skip_ws cs of
                  [] \<Rightarrow> Inl JSONDecodeError
                | n # r \<Rightarrow>
                    if n = CHR ''}'' then Inr (JObj [], r)
                    else if n = DQUOTE then object_items lim (d - 1) r []
                    else Inl JSONDecodeError))
          else if c = CHR ''['' then
            (if d = 0 then Inl RecursionError
             else
               (case skip_ws cs of
                  [] \<Rightarrow> Inl JSONDecodeError
                | n # r \<Rightarrow>
                    if n = CHR '']'' then Inr (JArr [], r)
                    else array_items lim (d - 1) (n # r) []))
          else scan_atom lim s)"
| "array_items lim d s acc =
     (case scan_once lim d s of
        Inl e \<Rightarrow> Inl e
      | Inr (v, r) \<Rightarrow>
          if length r < length s then
            (case skip_ws r of
               [] \<Rightarrow> Inl JSONDecodeError
             | n # r2 \<Rightarrow>
                 if n = CHR '']'' then Inr (JArr (acc @ [v]), r2)
                 else if n = CHR '','' then array_items lim d (skip_ws r2) (acc @ [v])
                 else Inl JSONDecodeError)
          else Inl JSONDecodeError)"
| "object_items lim d s acc =
     (case scanstring s of
        None \<Rightarrow> Inl JSONDecodeError
      | Some (key, r1) \<Rightarrow>
          (case skip_ws r1 of
             [] \<Rightarrow> Inl JSONDecodeError
           | n1 # r2 \<Rightarrow>
               if n1 = CHR '':'' then
                 (case scan_once lim d (skip_ws r2) of
                    Inl e \<Rightarrow> Inl e
                  | Inr (v, r3) \<Rightarrow>
                      if length r3 < length (skip_ws r2) then
                        (case skip_ws r3 of
                           [] \<Rightarrow> Inl JSONDecodeError
                         | n2 # r4 \<Rightarrow>
                             if n2 = CHR ''}'' then
                               Inr (JObj (dict_update [] (acc @ [(key, v)])), r4)
                             else if n2 = CHR '','' then
                               (case skip_ws r4 of
                                  [] \<Rightarrow> Inl JSONDecodeError
                                | n3 # r5 \<Rightarrow>
                                    if n3 = DQUOTE then object_items lim d r5 (acc @ [(key, v)])
                                    else Inl JSONDecodeError)
                             else Inl JSONDecodeError)
                      else Inl JSONDecodeError)
               else Inl JSONDecodeError))"
  by pat_completeness auto

termination
proof (relation "measures
    [\<lambda>x. case x of Inl (lim, d, s) \<Rightarrow> length s | Inr (Inl (lim, d, s, acc)) \<Rightarrow> length s
          | Inr (Inr (lim, d, s, acc)) \<Rightarrow> length s,
     \<lambda>x. case x of Inl _ \<Rightarrow> 0 | Inr _ \<Rightarrow> 1]", goal_cases)
  case 1
  then show ?case by simp
next
  case (2 lim d s c cs n r)
  then show ?case using skip_ws_Cons_shorter [of cs n r] by simp
next
  case (3 lim d s c cs n r)
  then show ?case using skip_ws_length [of cs] by simp
next
  case (4 lim d s acc)
  then show ?case by simp
next
  case (5 lim d s acc x v r n r2)
  then show ?case
    using skip_ws_Cons_shorter [of r n r2] skip_ws_length [of r2] by simp
next
  case (6 lim d s acc x key r1 n1 r2)
  then show ?case
    using scanstring_shorter [of s key r1] skip_ws_Cons_shorter [of r1 n1 r2]
      skip_ws_length [of r2] by simp
next
  case (7 lim d s acc x key r1 n1 r2 xa v r3 n2 r4 n3 r5)
  then show ?case
    using scanstring_shorter [of s key r1] skip_ws_Cons_shorter [of r1 n1 r2]
      skip_ws_length [of r2] skip_ws_Cons_shorter [of r3 n2 r4]
      skip_ws_Cons_shorter [of r4 n3 r5] by simp
qed

definition json_loads :: "limits \<Rightarrow> string \<Rightarrow> exn + json" where
  "json_loads lim s =
     (case scan_once lim (decode_depth lim) (skip_ws s) of
        Inl e \<Rightarrow> Inl e
      | Inr (obj, r) \<Rightarrow> if skip_ws r = [] then Inr obj else Inl JSONDecodeError)"

text \<open>
  What a text denotes as a JSON document, whatever the interpreter allows: the decoder
  with no limit on the digits and with as much depth as the text has characters, which
  is more than it can nest.
\<close>

definition json_decode :: "string \<Rightarrow> json option" where
  "json_decode s =
     (case json_loads \<lparr>decode_depth = length s, encode_depth = 0, max_str_digits = 0\<rparr> s of
        Inl e \<Rightarrow> None
      | Inr v \<Rightarrow> Some v)"

section \<open>The values of a Python program\<close>

text \<open>
  A float is written by \<^verbatim>\<open>float.__repr__\<close>, as digits with a fraction, an exponent or
  both (\<^verbatim>\<open>0.1\<close>, \<^verbatim>\<open>-2.5e-07\<close>, \<^verbatim>\<open>1e+16\<close>): a text that the number pattern of the decoder
  matches to its end, with a fraction or an exponent. \<^verbatim>\<open>NaN\<close> and the infinities are
  not JSON and are left out.
\<close>

definition float_literal :: "string \<Rightarrow> bool" where
  "float_literal lit =
     (case match_number lit of
        Some (integer, frac, ex, r) \<Rightarrow> r = [] \<and> (frac \<noteq> [] \<or> ex \<noteq> [])
      | None \<Rightarrow> False)"

text \<open>
  \<open>wf_json v\<close>: every dictionary in \<open>v\<close> has distinct keys, as every Python \<^verbatim>\<open>dict\<close>
  has, and every float in \<open>v\<close> is a finite float.
\<close>

fun wf_json :: "json \<Rightarrow> bool"
  and wf_list :: "json list \<Rightarrow> bool"
  and wf_items :: "(string \<times> json) list \<Rightarrow> bool"
where
  "wf_json (JArr xs) = wf_list xs"
| "wf_json (JObj kvs) = (distinct (map fst kvs) \<and> wf_items kvs)"
| "wf_json (JFloat lit) = float_literal lit"
| "wf_json _ = True"
| "wf_list [] = True"
| "wf_list (x # xs) = (wf_json x \<and> wf_list xs)"
| "wf_items [] = True"
| "wf_items ((k, v) # kvs) = (wf_json v \<and> wf_items kvs)"

section \<open>UTF-8 text files\<close>

text \<open>
  The file is opened with \<^verbatim>\<open>encoding="utf-8"\<close>. Reading bytes that are not UTF-8 raises
  \<^verbatim>\<open>UnicodeDecodeError\<close>; writing a string that has no UTF-8 encoding (a lone surrogate,
  which an escape \<^verbatim>\<open>\ud800\<close> in a file can bring in) raises \<^verbatim>\<open>UnicodeEncodeError\<close>, and
  what was written before stays in the file: \<open>utf8_prefix\<close> is the longest prefix that
  is well-formed UTF-8. \<open>written out\<close> is what reaches the file of what the encoder
  produces when the operating system does not fail, and \<open>stream_error out\<close> is the
  exception that ends the writing, if any.
\<close>

definition is_cont :: "char \<Rightarrow> bool" where
  "is_cont c = (0x80 \<le> (of_char c :: nat) \<and> (of_char c :: nat) \<le> 0xBF)"

definition second_ok :: "nat \<Rightarrow> char \<Rightarrow> bool" where
  "second_ok b c =
     (let n = (of_char c :: nat) in
      if b = 0xE0 then 0xA0 \<le> n \<and> n \<le> 0xBF
      else if b = 0xED then 0x80 \<le> n \<and> n \<le> 0x9F
      else if b = 0xF0 then 0x90 \<le> n \<and> n \<le> 0xBF
      else if b = 0xF4 then 0x80 \<le> n \<and> n \<le> 0x8F
      else is_cont c)"

fun utf8_prefix :: "string \<Rightarrow> string" where
  "utf8_prefix [] = []"
| "utf8_prefix (c # cs) =
     (let b = (of_char c :: nat) in
      if b < 0x80 then c # utf8_prefix cs
      else if 0xC2 \<le> b \<and> b \<le> 0xDF then
        (case cs of
           c1 # r \<Rightarrow> if is_cont c1 then c # c1 # utf8_prefix r else []
         | _ \<Rightarrow> [])
      else if 0xE0 \<le> b \<and> b \<le> 0xEF then
        (case cs of
           c1 # c2 # r \<Rightarrow>
             if second_ok b c1 \<and> is_cont c2 then c # c1 # c2 # utf8_prefix r else []
         | _ \<Rightarrow> [])
      else if 0xF0 \<le> b \<and> b \<le> 0xF4 then
        (case cs of
           c1 # c2 # c3 # r \<Rightarrow>
             if second_ok b c1 \<and> is_cont c2 \<and> is_cont c3
             then c # c1 # c2 # c3 # utf8_prefix r else []
         | _ \<Rightarrow> [])
      else [])"

definition valid_utf8 :: "string \<Rightarrow> bool" where
  "valid_utf8 s = (utf8_prefix s = s)"

definition written :: "string \<times> exn option \<Rightarrow> string" where
  "written out = utf8_prefix (fst out)"

definition stream_error :: "string \<times> exn option \<Rightarrow> exn option" where
  "stream_error out = (if valid_utf8 (fst out) then snd out else Some UnicodeEncodeError)"

section \<open>Paths and the file system\<close>

datatype event = MakeDirs string | WriteFile string string | ReplaceFile string string

record world =
  files :: "string \<Rightarrow> string option"
  console :: "string list"
  log :: "event list"

record database =
  file_path :: string
  data :: json

text \<open>
  Paths are strings with \<^verbatim>\<open>/\<close> between the components. \<open>with_suffix\<close> is
  \<^verbatim>\<open>Path.with_suffix\<close>: the suffix of the last component starts at its last dot, unless
  that dot is its first or its last character; it is replaced, or the new suffix is
  added when there is none. A path with an empty last component has no name to change.
\<close>

definition path_name :: "string \<Rightarrow> string" where
  "path_name p = rev (takeWhile (\<lambda>c. c \<noteq> CHR ''/'') (rev p))"

definition path_suffix :: "string \<Rightarrow> string" where
  "path_suffix p =
     (let name = path_name p;
          ext = rev (takeWhile (\<lambda>c. c \<noteq> CHR ''.'') (rev name))
      in if CHR ''.'' \<in> set name \<and> ext \<noteq> [] \<and> length ext + 1 < length name
         then CHR ''.'' # ext else [])"

definition with_suffix :: "string \<Rightarrow> string \<Rightarrow> exn + string" where
  "with_suffix p suffix =
     (if path_name p = [] then Inl ValueError
      else Inr (take (length p - length (path_suffix p)) p @ suffix))"

definition path_parent :: "string \<Rightarrow> string" where
  "path_parent p =
     (let d = rev (dropWhile (\<lambda>c. c \<noteq> CHR ''/'') (rev p))
      in if d = [] then ''.'' else if d = ''/'' then d else butlast d)"

section \<open>File-system calls\<close>

text \<open>
  The world outside the store: the files (path to bytes), what was printed, and the
  file-system calls that completed, in order. Whether a call of the operating system
  fails is not decided by the program; each operation takes the failure, if any, as an
  argument. A missing file is part of the state: reading it fails with \<open>ENOENT\<close>
  (Python's \<^verbatim>\<open>FileNotFoundError\<close>).
\<close>

definition write_file :: "world \<Rightarrow> string \<Rightarrow> string \<Rightarrow> world" where
  "write_file w p text =
     w\<lparr>files := (files w)(p \<mapsto> text), log := log w @ [WriteFile p text]\<rparr>"

definition replace_file :: "world \<Rightarrow> string \<Rightarrow> string \<Rightarrow> world" where
  "replace_file w src dst =
     (if src = dst then w\<lparr>log := log w @ [ReplaceFile src dst]\<rparr>
      else w\<lparr>files := ((files w)(dst := files w src))(src := None),
             log := log w @ [ReplaceFile src dst]\<rparr>)"

definition open_read :: "world \<Rightarrow> os_error option \<Rightarrow> string \<Rightarrow> exn + string" where
  "open_read w fault p =
     (case fault of
        Some e \<Rightarrow> Inl (OSError e)
      | None \<Rightarrow>
          (case files w p of
             None \<Rightarrow> Inl (OSError ENOENT)
           | Some bytes \<Rightarrow> if valid_utf8 bytes then Inr bytes else Inl UnicodeDecodeError))"

datatype save_fault =
    NoFault
  | OpenFails os_error
  | WriteFails nat os_error
  | ReplaceFails os_error

definition finish_write :: "world \<Rightarrow> string \<Rightarrow> string \<times> exn option \<Rightarrow> world \<times> (exn + unit)" where
  "finish_write w p out =
     (case stream_error out of
        None \<Rightarrow> (write_file w p (fst out), Inr ())
      | Some x \<Rightarrow> (write_file w p (written out), Inl x))"

fun write_text ::
  "world \<Rightarrow> save_fault \<Rightarrow> string \<Rightarrow> string \<times> exn option \<Rightarrow> world \<times> (exn + unit)" where
  "write_text w (OpenFails e) p out = (w, Inl (OSError e))"
| "write_text w (WriteFails n e) p out =
     (if n < length (written out) \<or> stream_error out = None
      then (write_file w p (take n (fst out)), Inl (OSError e))
      else finish_write w p out)"
| "write_text w fault p out = finish_write w p out"

fun replace_step :: "world \<Rightarrow> save_fault \<Rightarrow> string \<Rightarrow> string \<Rightarrow> world \<times> (exn + unit)" where
  "replace_step w (ReplaceFails e) src dst = (w, Inl (OSError e))"
| "replace_step w fault src dst = (replace_file w src dst, Inr ())"

section \<open>The class \<^verbatim>\<open>Database\<close>\<close>

text \<open>
  The methods of the class, in the order of the source. A store is its path and its
  data; the data is whatever \<^verbatim>\<open>load_data\<close> returned, a dictionary or not. A method that
  changes the store or the files takes the world and the store and returns both, with
  the value it returns (\<open>Inr\<close>) or the exception it raises (\<open>Inl\<close>). The lock is not
  modelled: calls are made one after the other. \<open>init\<close> is \<^verbatim>\<open>__init__\<close>, \<open>save_data\<close> is
  \<^verbatim>\<open>_save_data\<close>, \<open>set_db\<close> is \<^verbatim>\<open>set\<close>. A method that reads or writes the file takes
  the limits of the interpreter at the call (\<open>lim\<close>) and what the operating system
  does during it.
\<close>

definition ensure_directory_exists ::
  "world \<Rightarrow> os_error option \<Rightarrow> string \<Rightarrow> world \<times> (exn + unit)" where
  "ensure_directory_exists w fault p =
     (case fault of
        Some e \<Rightarrow> (w, Inl (OSError e))
      | None \<Rightarrow> (w\<lparr>log := log w @ [MakeDirs (path_parent p)]\<rparr>, Inr ()))"

definition warning :: "string \<Rightarrow> string" where
  "warning p = ''Warning: Invalid JSON file at '' @ p @ ''. Starting with empty data.''"

definition load_data ::
  "limits \<Rightarrow> world \<Rightarrow> os_error option \<Rightarrow> string \<Rightarrow> world \<times> (exn + json)" where
  "load_data lim w fault p =
     (case open_read w fault p of
        Inl x \<Rightarrow> if x = OSError ENOENT then (w, Inr (JObj [])) else (w, Inl x)
      | Inr text \<Rightarrow>
          (case json_loads lim text of
             Inl x \<Rightarrow>
               if x = JSONDecodeError
               then (w\<lparr>console := console w @ [warning p]\<rparr>, Inr (JObj []))
               else (w, Inl x)
           | Inr v \<Rightarrow> (w, Inr v)))"

definition init ::
  "limits \<Rightarrow> world \<Rightarrow> os_error option \<Rightarrow> os_error option \<Rightarrow> string
     \<Rightarrow> world \<times> (exn + database)" where
  "init lim w mkdir_fault read_fault p =
     (case ensure_directory_exists w mkdir_fault p of
        (w1, Inl x) \<Rightarrow> (w1, Inl x)
      | (w1, Inr _) \<Rightarrow>
          (case load_data lim w1 read_fault p of
             (w2, Inl x) \<Rightarrow> (w2, Inl x)
           | (w2, Inr v) \<Rightarrow> (w2, Inr \<lparr>file_path = p, data = v\<rparr>)))"

definition wrap_ioerror :: "string \<Rightarrow> exn \<Rightarrow> exn" where
  "wrap_ioerror p x = (case x of OSError e \<Rightarrow> IOError p e | _ \<Rightarrow> x)"

definition save_data ::
  "limits \<Rightarrow> world \<Rightarrow> save_fault \<Rightarrow> database \<Rightarrow> world \<times> (exn + unit)" where
  "save_data lim w fault db =
     (case with_suffix (file_path db) ''.tmp'' of
        Inl x \<Rightarrow> (w, Inl x)
      | Inr temp_path \<Rightarrow>
          (case write_text w fault temp_path (json_dump lim (data db)) of
             (w1, Inl x) \<Rightarrow> (w1, Inl (wrap_ioerror (file_path db) x))
           | (w1, Inr _) \<Rightarrow>
               (case replace_step w1 fault temp_path (file_path db) of
                  (w2, Inl x) \<Rightarrow> (w2, Inl (wrap_ioerror (file_path db) x))
                | (w2, Inr _) \<Rightarrow> (w2, Inr ()))))"

text \<open>
  \<^verbatim>\<open>key in self.data\<close>: membership among the keys of a dictionary, among the items of a
  list, as a substring of a string; other values raise \<^verbatim>\<open>TypeError\<close>.
\<close>

fun contains_str :: "string \<Rightarrow> string \<Rightarrow> bool" where
  "contains_str [] k = (k = [])"
| "contains_str (c # cs) k = (take (length k) (c # cs) = k \<or> contains_str cs k)"

definition py_contains :: "json \<Rightarrow> string \<Rightarrow> exn + bool" where
  "py_contains d key =
     (case d of
        JObj kvs \<Rightarrow> Inr (dict_contains kvs key)
      | JArr xs \<Rightarrow> Inr (JStr key \<in> set xs)
      | JStr s \<Rightarrow> Inr (contains_str s key)
      | _ \<Rightarrow> Inl TypeError)"

definition get :: "database \<Rightarrow> string \<Rightarrow> json \<Rightarrow> exn + json" where
  "get db key dflt =
     (case data db of
        JObj kvs \<Rightarrow> Inr (dict_get kvs key dflt)
      | _ \<Rightarrow> Inl AttributeError)"

definition set_db ::
  "limits \<Rightarrow> world \<Rightarrow> save_fault \<Rightarrow> database \<Rightarrow> string \<Rightarrow> json
     \<Rightarrow> world \<times> database \<times> (exn + unit)" where
  "set_db lim w fault db key v =
     (case data db of
        JObj kvs \<Rightarrow>
          (let db' = db\<lparr>data := JObj (dict_setitem kvs key v)\<rparr>
           in case save_data lim w fault db' of (w', r) \<Rightarrow> (w', db', r))
      | _ \<Rightarrow> (w, db, Inl TypeError))"

definition delete ::
  "limits \<Rightarrow> world \<Rightarrow> save_fault \<Rightarrow> database \<Rightarrow> string
     \<Rightarrow> world \<times> database \<times> (exn + bool)" where
  "delete lim w fault db key =
     (case py_contains (data db) key of
        Inl x \<Rightarrow> (w, db, Inl x)
      | Inr False \<Rightarrow> (w, db, Inr False)
      | Inr True \<Rightarrow>
          (case data db of
             JObj kvs \<Rightarrow>
               (let db' = db\<lparr>data := JObj (dict_delitem kvs key)\<rparr>
                in case save_data lim w fault db' of
                     (w', Inl x) \<Rightarrow> (w', db', Inl x)
                   | (w', Inr _) \<Rightarrow> (w', db', Inr True))
           | _ \<Rightarrow> (w, db, Inl TypeError)))"

definition clear ::
  "limits \<Rightarrow> world \<Rightarrow> save_fault \<Rightarrow> database \<Rightarrow> world \<times> database \<times> (exn + unit)" where
  "clear lim w fault db =
     (case data db of
        JObj kvs \<Rightarrow>
          (let db' = db\<lparr>data := JObj []\<rparr>
           in case save_data lim w fault db' of (w', r) \<Rightarrow> (w', db', r))
      | JArr xs \<Rightarrow>
          (let db' = db\<lparr>data := JArr []\<rparr>
           in case save_data lim w fault db' of (w', r) \<Rightarrow> (w', db', r))
      | _ \<Rightarrow> (w, db, Inl AttributeError))"

definition exists :: "database \<Rightarrow> string \<Rightarrow> exn + bool" where
  "exists db key = py_contains (data db) key"

definition update ::
  "limits \<Rightarrow> world \<Rightarrow> save_fault \<Rightarrow> database \<Rightarrow> (string \<times> json) list
     \<Rightarrow> world \<times> database \<times> (exn + unit)" where
  "update lim w fault db updates =
     (case data db of
        JObj kvs \<Rightarrow>
          (let db' = db\<lparr>data := JObj (dict_update kvs updates)\<rparr>
           in case save_data lim w fault db' of (w', r) \<Rightarrow> (w', db', r))
      | _ \<Rightarrow> (w, db, Inl AttributeError))"

definition get_all :: "database \<Rightarrow> exn + json" where
  "get_all db =
     (case data db of
        JObj kvs \<Rightarrow> Inr (JObj kvs)
      | JArr xs \<Rightarrow> Inr (JArr xs)
      | _ \<Rightarrow> Inl AttributeError)"

section \<open>Sequences of calls, and what they leave on disk\<close>

text \<open>A sequence of \<^verbatim>\<open>set\<close> calls, each with what the file system does during its save
  and the limits of the interpreter at the call; an exception ends the sequence.\<close>

fun set_all ::
  "world \<Rightarrow> database \<Rightarrow> (string \<times> json \<times> save_fault \<times> limits) list
     \<Rightarrow> world \<times> database \<times> (exn + unit)" where
  "set_all w db [] = (w, db, Inr ())"
| "set_all w db ((k, v, f, lim) # cs) =
     (case set_db lim w f db k v of
        (w', db', Inl x) \<Rightarrow> (w', db', Inl x)
      | (w', db', Inr u) \<Rightarrow> set_all w' db' cs)"

text \<open>The store's file holds a JSON document, and it is the store's data.\<close>

definition on_disk :: "world \<Rightarrow> database \<Rightarrow> bool" where
  "on_disk w db =
     (\<exists>text. files w (file_path db) = Some text \<and> valid_utf8 text
        \<and> json_decode text = Some (data db))"

text \<open>What the decoder can read under the limits: the value is not too deep and none
  of its integers has too many digits.\<close>

fun ints_ok :: "limits \<Rightarrow> json \<Rightarrow> bool"
  and ints_ok_list :: "limits \<Rightarrow> json list \<Rightarrow> bool"
  and ints_ok_items :: "limits \<Rightarrow> (string \<times> json) list \<Rightarrow> bool"
where
  "ints_ok lim (JInt i) = (\<not> too_many_digits lim (length (digits (nat \<bar>i\<bar>))))"
| "ints_ok lim (JArr xs) = ints_ok_list lim xs"
| "ints_ok lim (JObj kvs) = ints_ok_items lim kvs"
| "ints_ok lim v = True"
| "ints_ok_list lim [] = True"
| "ints_ok_list lim (x # xs) = (ints_ok lim x \<and> ints_ok_list lim xs)"
| "ints_ok_items lim [] = True"
| "ints_ok_items lim ((k, v) # kvs) = (ints_ok lim v \<and> ints_ok_items lim kvs)"

definition readable :: "limits \<Rightarrow> json \<Rightarrow> bool" where
  "readable lim v = (depth v \<le> decode_depth lim \<and> ints_ok lim v)"

text \<open>The store's file holds the text that the encoder writes for the store's data;
  and a store is in step with the disk when it does, or when there is no file and the
  store is empty.\<close>

definition saved :: "world \<Rightarrow> database \<Rightarrow> bool" where
  "saved w db =
     (files w (file_path db) = Some (json_dumps (data db)) \<and> valid_utf8 (json_dumps (data db)))"

definition in_sync :: "world \<Rightarrow> database \<Rightarrow> bool" where
  "in_sync w db = (saved w db \<or> (files w (file_path db) = None \<and> data db = JObj []))"

definition is_write :: "event \<Rightarrow> bool" where
  "is_write e = (case e of WriteFile p text \<Rightarrow> True | _ \<Rightarrow> False)"

definition is_replace :: "event \<Rightarrow> bool" where
  "is_replace e = (case e of ReplaceFile src dst \<Rightarrow> True | _ \<Rightarrow> False)"

section \<open>Objects and references: \<^verbatim>\<open>get_all\<close>\<close>

text \<open>
  Above, a list or a dictionary is identified with its contents. What \<^verbatim>\<open>get_all\<close>
  returns is a new object, and whether changing it changes the store depends on which
  objects are shared. Here lists and dictionaries live in a heap, at addresses, and a
  value that is a list or a dictionary is a reference to its address. The heap is the
  list of its objects; a new object is put at the end.
\<close>

datatype pyval = VNone | VBool bool | VInt int | VFloat string | VStr string | VRef nat

datatype pyobj = OList "pyval list" | ODict "(string \<times> pyval) list"

type_synonym heap = "pyobj list"

definition lookup :: "heap \<Rightarrow> nat \<Rightarrow> pyobj option" where
  "lookup h a = (if a < length h then Some (h ! a) else None)"

fun value_of :: "nat \<Rightarrow> heap \<Rightarrow> pyval \<Rightarrow> json option" where
  "value_of n h VNone = Some JNull"
| "value_of n h (VBool b) = Some (JBool b)"
| "value_of n h (VInt i) = Some (JInt i)"
| "value_of n h (VFloat lit) = Some (JFloat lit)"
| "value_of n h (VStr s) = Some (JStr s)"
| "value_of 0 h (VRef a) = None"
| "value_of (Suc n) h (VRef a) =
     (case lookup h a of
        None \<Rightarrow> None
      | Some (OList xs) \<Rightarrow> map_option JArr (those (map (value_of n h) xs))
      | Some (ODict kvs) \<Rightarrow>
          map_option JObj
            (those (map (\<lambda>(k, v). map_option (Pair k) (value_of n h v)) kvs)))"

fun val_ok :: "nat \<Rightarrow> pyval \<Rightarrow> bool" where
  "val_ok m (VRef a) = (a < m)"
| "val_ok m v = True"

fun obj_ok :: "nat \<Rightarrow> pyobj \<Rightarrow> bool" where
  "obj_ok m (OList xs) = list_all (val_ok m) xs"
| "obj_ok m (ODict kvs) = list_all (\<lambda>(k, v). val_ok m v) kvs"

definition heap_ok :: "heap \<Rightarrow> bool" where
  "heap_ok h = list_all (obj_ok (length h)) h"

text \<open>\<^verbatim>\<open>self.data.copy()\<close>: a new dictionary (or list) with the same entries; the
  entries themselves are not copied.\<close>

definition get_all_heap :: "heap \<Rightarrow> pyval \<Rightarrow> exn + heap \<times> pyval" where
  "get_all_heap h d =
     (case d of
        VRef a \<Rightarrow>
          (case lookup h a of
             Some obj \<Rightarrow> Inr (h @ [obj], VRef (length h))
           | None \<Rightarrow> Inl AttributeError)
      | _ \<Rightarrow> Inl AttributeError)"

text \<open>What a caller can do to an object it holds: \<^verbatim>\<open>xs.append(v)\<close> on a list and
  \<^verbatim>\<open>d[k] = v\<close> on a dictionary.\<close>

definition list_append :: "heap \<Rightarrow> nat \<Rightarrow> pyval \<Rightarrow> heap" where
  "list_append h a v =
     (case lookup h a of Some (OList xs) \<Rightarrow> h[a := OList (xs @ [v])] | _ \<Rightarrow> h)"

definition obj_setitem :: "heap \<Rightarrow> nat \<Rightarrow> string \<Rightarrow> pyval \<Rightarrow> heap" where
  "obj_setitem h a k v =
     (case lookup h a of Some (ODict kvs) \<Rightarrow> h[a := ODict (dict_setitem kvs k v)] | _ \<Rightarrow> h)"

section \<open>Where a value ends in the text\<close>

definition num_end :: "string \<Rightarrow> bool" where
  "num_end rest =
     (case rest of
        [] \<Rightarrow> True
      | c # r \<Rightarrow> \<not> is_digit c \<and> c \<noteq> CHR ''.'' \<and> c \<noteq> CHR ''e'' \<and> c \<noteq> CHR ''E'')"

definition delim :: "string \<Rightarrow> bool" where
  "delim rest = (case rest of [] \<Rightarrow> True | c # r \<Rightarrow> c = CHR '','' \<or> c = NEWLINE)"

section \<open>Example states\<close>

text \<open>
  \<open>usual\<close> are the limits of CPython 3.11 with its settings as they come (a recursion
  limit of 1000 frames, 4300 digits), for a call of the store made at the top level of a
  script: the decoder, written in C, reads 990 levels, and the encoder with indentation,
  a Python generator, writes 994. Other versions, settings and depths of the call stack
  give other numbers, and \<open>deep_in_stack\<close> are the limits of a call made far down the
  stack.
\<close>

definition usual :: limits where
  "usual = \<lparr>decode_depth = 990, encode_depth = 994, max_str_digits = 4300\<rparr>"

definition deep_in_stack :: limits where
  "deep_in_stack = \<lparr>decode_depth = 2, encode_depth = 4, max_str_digits = 4300\<rparr>"

text \<open>\<open>deep n\<close> is an empty list inside \<open>n\<close> lists, and \<open>brackets n\<close> is the text of
  \<open>n\<close> lists, one inside the other, written without white space.\<close>

fun deep :: "nat \<Rightarrow> json" where
  "deep 0 = JArr []"
| "deep (Suc n) = JArr [deep n]"

definition brackets :: "nat \<Rightarrow> string" where
  "brackets n = replicate n (CHR ''['') @ replicate n (CHR '']'')"

text \<open>\<open>long_integer n\<close> is the text of a list that holds one integer, of \<open>n\<close> digits.\<close>

definition long_integer :: "nat \<Rightarrow> string" where
  "long_integer n = ''['' @ replicate n (CHR ''1'') @ '']''"

definition world0 :: world where
  "world0 = \<lparr>files = Map.empty, console = [], log = []\<rparr>"

definition db0 :: database where
  "db0 = \<lparr>file_path = ''store/settings.json'', data = JObj [(''b'', JInt 1)]\<rparr>"

definition tmp_db :: database where
  "tmp_db = \<lparr>file_path = ''cache.tmp'', data = JObj [(''b'', JInt 1)]\<rparr>"

definition tmp_world :: world where
  "tmp_world = world0\<lparr>files := [''cache.tmp'' \<mapsto> json_dumps (data tmp_db)]\<rparr>"

definition heap1 :: heap where
  "heap1 = [ODict [(''xs'', VRef 1)], OList [VInt 1]]"

section \<open>Facts about dictionaries\<close>

lemma map_of_dict_setitem: "map_of (dict_setitem d k v) = (map_of d)(k \<mapsto> v)"
  by (induction d) (auto simp: fun_eq_iff)

lemma keys_dict_setitem: "fst ` set (dict_setitem d k v) = insert k (fst ` set d)"
proof -
  have "dom (map_of (dict_setitem d k v)) = insert k (dom (map_of d))"
    by (simp only: map_of_dict_setitem dom_fun_upd) simp
  then show ?thesis by (simp only: dom_map_of_conv_image_fst)
qed

lemma distinct_dict_setitem:
  "distinct (map fst d) \<Longrightarrow> distinct (map fst (dict_setitem d k v))"
proof (induction d)
  case Nil
  then show ?case by simp
next
  case (Cons a d)
  obtain k' v' where a: "a = (k', v')" by (cases a)
  show ?case
  proof (cases "k' = k")
    case True
    with Cons.prems a show ?thesis by simp
  next
    case False
    from Cons.prems a have "k' \<notin> fst ` set d" by simp
    with False have "k' \<notin> fst ` set (dict_setitem d k v)"
      by (simp only: keys_dict_setitem) simp
    with Cons False a show ?thesis by simp
  qed
qed

lemma map_of_dict_delitem:
  "distinct (map fst d) \<Longrightarrow> map_of (dict_delitem d k) = (map_of d)(k := None)"
proof (induction d)
  case Nil
  then show ?case by simp
next
  case (Cons a d)
  obtain k' v' where a: "a = (k', v')" by (cases a)
  show ?case
  proof (cases "k' = k")
    case True
    with Cons.prems a have "k \<notin> fst ` set d" by simp
    then have "map_of d k = None" by (simp add: map_of_eq_None_iff)
    with True a show ?thesis by (auto simp: fun_eq_iff)
  next
    case False
    with Cons a show ?thesis by (auto simp: fun_eq_iff)
  qed
qed

lemma keys_dict_delitem:
  assumes "distinct (map fst d)"
  shows "fst ` set (dict_delitem d k) = fst ` set d - {k}"
proof -
  have "dom (map_of (dict_delitem d k)) = dom (map_of d) - {k}"
    by (simp only: map_of_dict_delitem [OF assms] dom_fun_upd) simp
  then show ?thesis by (simp only: dom_map_of_conv_image_fst)
qed

lemma dict_delitem_subset: "set (dict_delitem d k) \<subseteq> set d"
  by (induction d) (auto split: if_splits)

lemma distinct_dict_delitem:
  "distinct (map fst d) \<Longrightarrow> distinct (map fst (dict_delitem d k))"
proof (induction d)
  case Nil
  then show ?case by simp
next
  case (Cons a d)
  obtain k' v' where a: "a = (k', v')" by (cases a)
  from Cons.prems a have "k' \<notin> fst ` set d" by simp
  with dict_delitem_subset [of d k] have "k' \<notin> fst ` set (dict_delitem d k)" by blast
  with Cons a show ?case by simp
qed

lemma dict_delitem_absent: "k \<notin> fst ` set d \<Longrightarrow> dict_delitem d k = d"
  by (induction d) auto

lemma dict_update_snoc:
  "dict_update d (us @ [(k, v)]) = dict_setitem (dict_update d us) k v"
  by (simp add: dict_update_def)

lemma map_of_dict_update:
  "distinct (map fst us) \<Longrightarrow> map_of (dict_update d us) = map_of d ++ map_of us"
proof (induction us rule: rev_induct)
  case Nil
  then show ?case by (simp add: dict_update_def)
next
  case (snoc a us)
  obtain k v where a: "a = (k, v)" by (cases a)
  from snoc.prems a have k: "k \<notin> fst ` set us" and d: "distinct (map fst us)" by auto
  from k have none: "map_of us k = None" by (simp add: map_of_eq_None_iff)
  have "map_of (dict_update d (us @ [(k, v)])) = (map_of (dict_update d us))(k \<mapsto> v)"
    by (simp only: dict_update_snoc map_of_dict_setitem)
  also have "\<dots> = (map_of d ++ map_of us)(k \<mapsto> v)"
    by (simp only: snoc.IH [OF d])
  also have "\<dots> = map_of d ++ map_of (us @ [(k, v)])"
    using none by (auto simp: fun_eq_iff map_add_def split: option.splits)
  finally show ?case by (simp only: a)
qed

lemma keys_dict_update:
  "fst ` set (dict_update d us) = fst ` set d \<union> fst ` set us"
proof (induction us rule: rev_induct)
  case Nil
  then show ?case by (simp add: dict_update_def)
next
  case (snoc a us)
  obtain k v where a: "a = (k, v)" by (cases a)
  have "fst ` set (dict_update d (us @ [(k, v)])) = insert k (fst ` set (dict_update d us))"
    by (simp only: dict_update_snoc keys_dict_setitem)
  with snoc a show ?case by auto
qed

lemma distinct_dict_update:
  "distinct (map fst d) \<Longrightarrow> distinct (map fst (dict_update d us))"
proof (induction us rule: rev_induct)
  case Nil
  then show ?case by (simp add: dict_update_def)
next
  case (snoc a us)
  then show ?case by (cases a) (simp only: dict_update_snoc distinct_dict_setitem)
qed

lemma dict_contains_map_of: "dict_contains d k \<longleftrightarrow> map_of d k \<noteq> None"
  by (simp add: dict_contains_def map_of_eq_None_iff)

section \<open>What a save does to the world\<close>

lemma stream_error_None:
  "stream_error out = None \<longleftrightarrow> valid_utf8 (fst out) \<and> snd out = None"
  by (simp add: stream_error_def)

lemma write_text_success:
  assumes "write_text w f p out = (w1, Inr ())"
  shows "valid_utf8 (fst out) \<and> snd out = None \<and> w1 = write_file w p (fst out)
    \<and> (\<forall>e. f \<noteq> OpenFails e) \<and> (\<forall>n e. f \<noteq> WriteFails n e)"
  using assms
  by (cases f) (auto simp: finish_write_def stream_error_def split: if_splits option.splits)

lemma save_data_cases:
  assumes "save_data lim w f db = (w', r)"
  obtains (noname) x where "with_suffix (file_path db) ''.tmp'' = Inl x" "w' = w" "r = Inl x"
  | (ran) tmp w1 r1 where "with_suffix (file_path db) ''.tmp'' = Inr tmp"
      "write_text w f tmp (json_dump lim (data db)) = (w1, r1)"
      "(\<exists>x. r1 = Inl x \<and> w' = w1 \<and> r = Inl (wrap_ioerror (file_path db) x))
       \<or> (r1 = Inr () \<and> (\<exists>w2 r2. replace_step w1 f tmp (file_path db) = (w2, r2) \<and> w' = w2
            \<and> ((\<exists>x. r2 = Inl x \<and> r = Inl (wrap_ioerror (file_path db) x)) \<or> (r2 = Inr () \<and> r = Inr ()))))"
  using assms unfolding save_data_def
  by (auto split: sum.splits prod.splits)

lemma save_data_success:
  assumes "save_data lim w f db = (w', Inr ())"
  obtains tmp doc where "with_suffix (file_path db) ''.tmp'' = Inr tmp"
    and "f = NoFault"
    and "json_dump lim (data db) = (doc, None)"
    and "valid_utf8 doc"
    and "w' = replace_file (write_file w tmp doc) tmp (file_path db)"
proof -
  from assms obtain tmp w1 where t: "with_suffix (file_path db) ''.tmp'' = Inr tmp"
    and wt: "write_text w f tmp (json_dump lim (data db)) = (w1, Inr ())"
    and rs: "replace_step w1 f tmp (file_path db) = (w', Inr ())"
    unfolding save_data_def by (auto split: sum.splits prod.splits)
  from write_text_success [OF wt]
  have v: "valid_utf8 (fst (json_dump lim (data db)))"
    and n: "snd (json_dump lim (data db)) = None"
    and w1: "w1 = write_file w tmp (fst (json_dump lim (data db)))"
    and f1: "\<forall>e. f \<noteq> OpenFails e" "\<forall>n e. f \<noteq> WriteFails n e"
    by blast+
  from rs f1 have f: "f = NoFault" by (cases f) auto
  from n have d: "json_dump lim (data db) = (fst (json_dump lim (data db)), None)"
    by (cases "json_dump lim (data db)") simp
  from rs f w1
  have "w' = replace_file (write_file w tmp (fst (json_dump lim (data db)))) tmp (file_path db)"
    by simp
  with t f d v show ?thesis by (rule that)
qed

lemma save_data_NoFault:
  assumes "with_suffix (file_path db) ''.tmp'' = Inr tmp"
    and "json_dump lim (data db) = (text, None)"
    and "valid_utf8 text"
  shows "save_data lim w NoFault db =
    (replace_file (write_file w tmp text) tmp (file_path db), Inr ())"
  using assms by (simp add: save_data_def finish_write_def stream_error_def)

lemma files_after_save:
  "files (replace_file (write_file w tmp text) tmp p) p = Some text"
  by (simp add: replace_file_def write_file_def)

lemma log_after_save:
  "log (replace_file (write_file w tmp text) tmp p) = log w @ [WriteFile tmp text, ReplaceFile tmp p]"
  by (simp add: replace_file_def write_file_def)

section \<open>Facts about the accessors\<close>

lemma exists_dict: "data db = JObj kvs \<Longrightarrow> exists db k = Inr (dict_contains kvs k)"
  by (simp add: exists_def py_contains_def)

lemma dict_contains_keys: "dict_contains d k \<longleftrightarrow> k \<in> fst ` set d"
  by (simp add: dict_contains_def)

lemma delete_absent:
  assumes "data db = JObj kvs" and "\<not> dict_contains kvs k"
  shows "delete lim w f db k = (w, db, Inr False)"
  using assms by (simp add: delete_def py_contains_def)

lemma delete_present:
  assumes "data db = JObj kvs" and "dict_contains kvs k"
  shows "delete lim w f db k =
    (case save_data lim w f (db\<lparr>data := JObj (dict_delitem kvs k)\<rparr>) of
       (w', Inl x) \<Rightarrow> (w', db\<lparr>data := JObj (dict_delitem kvs k)\<rparr>, Inl x)
     | (w', Inr _) \<Rightarrow> (w', db\<lparr>data := JObj (dict_delitem kvs k)\<rparr>, Inr True))"
  using assms by (simp add: delete_def py_contains_def Let_def)

lemma not_contains_after_delitem:
  "distinct (map fst d) \<Longrightarrow> \<not> dict_contains (dict_delitem d k) k"
  by (simp add: dict_contains_keys keys_dict_delitem)

section \<open>The file-system calls of a save\<close>

lemma finish_write_log:
  assumes "finish_write w p out = (w1, r1)"
  shows "\<exists>evs. log w1 = log w @ evs \<and> length (filter is_write evs) \<le> 1
    \<and> filter is_replace evs = []"
  using assms
  by (auto simp: finish_write_def write_file_def is_write_def is_replace_def
      split: option.splits)

lemma write_text_log:
  assumes "write_text w f p out = (w1, r1)"
  shows "\<exists>evs. log w1 = log w @ evs \<and> length (filter is_write evs) \<le> 1
    \<and> filter is_replace evs = []"
proof (cases f)
  case NoFault
  with assms have "finish_write w p out = (w1, r1)" by simp
  then show ?thesis by (rule finish_write_log)
next
  case (OpenFails e)
  with assms show ?thesis by auto
next
  case (WriteFails n e)
  show ?thesis
  proof (cases "n < length (written out) \<or> stream_error out = None")
    case True
    with assms WriteFails show ?thesis
      by (auto simp: write_file_def is_write_def is_replace_def)
  next
    case False
    with assms WriteFails have "finish_write w p out = (w1, r1)" by simp
    then show ?thesis by (rule finish_write_log)
  qed
next
  case (ReplaceFails e)
  with assms have "finish_write w p out = (w1, r1)" by simp
  then show ?thesis by (rule finish_write_log)
qed

lemma replace_step_log:
  assumes "replace_step w f src dst = (w1, r1)"
  shows "\<exists>evs. log w1 = log w @ evs \<and> filter is_write evs = []
    \<and> length (filter is_replace evs) \<le> 1"
  using assms
  by (cases f) (auto simp: replace_file_def is_write_def is_replace_def split: if_splits)

lemma save_data_log:
  assumes "save_data lim w f db = (w', r)"
  shows "\<exists>evs. log w' = log w @ evs \<and> length (filter is_write evs) \<le> 1
    \<and> length (filter is_replace evs) \<le> 1"
  using assms
proof (cases rule: save_data_cases)
  case (noname x)
  then show ?thesis by simp
next
  case (ran tmp w1 r1)
  from write_text_log [OF ran(2)] obtain evs1 where
    e1: "log w1 = log w @ evs1" "length (filter is_write evs1) \<le> 1" "filter is_replace evs1 = []"
    by blast
  from ran(3) show ?thesis
  proof
    assume "\<exists>x. r1 = Inl x \<and> w' = w1 \<and> r = Inl (wrap_ioerror (file_path db) x)"
    with e1 show ?thesis by auto
  next
    assume "r1 = Inr () \<and> (\<exists>w2 r2. replace_step w1 f tmp (file_path db) = (w2, r2) \<and> w' = w2
      \<and> ((\<exists>x. r2 = Inl x \<and> r = Inl (wrap_ioerror (file_path db) x)) \<or> (r2 = Inr () \<and> r = Inr ())))"
    then obtain r2 where rs: "replace_step w1 f tmp (file_path db) = (w', r2)" by blast
    from replace_step_log [OF rs] obtain evs2 where
      e2: "log w' = log w1 @ evs2" "filter is_write evs2 = []" "length (filter is_replace evs2) \<le> 1"
      by blast
    from e1 e2 have "log w' = log w @ (evs1 @ evs2)"
      "length (filter is_write (evs1 @ evs2)) \<le> 1" "length (filter is_replace (evs1 @ evs2)) \<le> 1"
      by simp_all
    then show ?thesis by blast
  qed
qed

section \<open>Facts about construction\<close>

lemma open_read_files: "files w1 = files w \<Longrightarrow> open_read w1 fault p = open_read w fault p"
  by (simp add: open_read_def split: option.splits)

lemma init_no_mkdir_fault:
  "init lim w None rd p =
     (case load_data lim (w\<lparr>log := log w @ [MakeDirs (path_parent p)]\<rparr>) rd p of
        (w2, Inl x) \<Rightarrow> (w2, Inl x)
      | (w2, Inr v) \<Rightarrow> (w2, Inr \<lparr>file_path = p, data = v\<rparr>))"
  by (simp add: init_def ensure_directory_exists_def)

section \<open>A save that fails\<close>

text \<open>
  When the temporary path differs from the store's path, a save that fails in the open,
  the write or the rename leaves the store's file as it was. When the operating system
  refuses the open, a write or the rename, the save raises the \<^verbatim>\<open>IOError\<close> that names
  the path and carries the cause.
\<close>

lemma write_text_other_file:
  assumes "write_text w f tmp out = (w1, r1)" and "tmp \<noteq> p"
  shows "files w1 p = files w p"
  using assms
  by (cases f) (auto simp: finish_write_def write_file_def split: if_splits option.splits)

lemma failed_save_keeps_target:
  assumes t: "with_suffix (file_path db) ''.tmp'' = Inr tmp" and ne: "tmp \<noteq> file_path db"
    and s: "save_data lim w f db = (w', Inl x)"
  shows "files w' (file_path db) = files w (file_path db)"
proof -
  from s t obtain w1 r1 where wt: "write_text w f tmp (json_dump lim (data db)) = (w1, r1)"
    and rest: "(\<exists>y. r1 = Inl y \<and> w' = w1)
       \<or> (r1 = Inr () \<and> (\<exists>y. replace_step w1 f tmp (file_path db) = (w', Inl y)))"
    unfolding save_data_def by (auto split: sum.splits prod.splits)
  from write_text_other_file [OF wt ne]
  have f1: "files w1 (file_path db) = files w (file_path db)" .
  from rest show ?thesis
  proof
    assume "\<exists>y. r1 = Inl y \<and> w' = w1"
    with f1 show ?thesis by auto
  next
    assume "r1 = Inr () \<and> (\<exists>y. replace_step w1 f tmp (file_path db) = (w', Inl y))"
    then have "w' = w1" by (cases f) auto
    with f1 show ?thesis by simp
  qed
qed

lemma os_fault_is_ioerror:
  assumes t: "with_suffix (file_path db) ''.tmp'' = Inr tmp"
    and d: "json_dump lim (data db) = (text, None)"
    and v: "valid_utf8 text"
    and f: "f = OpenFails e \<or> f = WriteFails n e \<or> f = ReplaceFails e"
  shows "snd (save_data lim w f db) = Inl (IOError (file_path db) e)"
  using f t d v
  by (auto simp: save_data_def wrap_ioerror_def finish_write_def stream_error_def)

lemma mutation_is_kept:
  assumes "data db = JObj kvs"
  shows "data (fst (snd (set_db lim w f db k v))) = JObj (dict_setitem kvs k v)"
    and "dict_contains kvs k \<Longrightarrow> data (fst (snd (delete lim w f db k))) = JObj (dict_delitem kvs k)"
    and "data (fst (snd (update lim w f db us))) = JObj (dict_update kvs us)"
    and "data (fst (snd (clear lim w f db))) = JObj []"
  using assms
  by (auto simp: set_db_def delete_def update_def clear_def py_contains_def Let_def
      split: prod.splits sum.splits)

section \<open>Facts about the heap\<close>

lemma value_of_frame:
  assumes ok: "heap_ok h" and same: "\<forall>a < length h. lookup h2 a = lookup h a"
  shows "val_ok (length h) v \<Longrightarrow> value_of n h2 v = value_of n h v"
proof (induction n arbitrary: v)
  case 0
  then show ?case by (cases v) simp_all
next
  case (Suc n)
  show ?case
  proof (cases v)
    case (VRef a)
    with Suc.prems have a: "a < length h" by simp
    with same have l: "lookup h2 a = lookup h a" by simp
    from a have la: "lookup h a = Some (h ! a)" by (simp add: lookup_def)
    from ok a have oo: "obj_ok (length h) (h ! a)"
      by (simp add: heap_ok_def list_all_length)
    show ?thesis
    proof (cases "h ! a")
      case (OList xs)
      with oo have "\<forall>x \<in> set xs. val_ok (length h) x" by (simp add: list_all_iff)
      with Suc.IH have m: "map (value_of n h2) xs = map (value_of n h) xs" by simp
      from VRef l la OList show ?thesis by (simp add: m)
    next
      case (ODict kvs)
      with oo have "\<forall>(k, x) \<in> set kvs. val_ok (length h) x" by (simp add: list_all_iff)
      with Suc.IH have m: "map (\<lambda>(k, v). map_option (Pair k) (value_of n h2 v)) kvs
          = map (\<lambda>(k, v). map_option (Pair k) (value_of n h v)) kvs"
        by auto
      from VRef l la ODict show ?thesis by (simp add: m)
    qed
  qed simp_all
qed

lemma lookup_append_update:
  "a < length h \<Longrightarrow> lookup ((h @ [x])[length h := obj]) a = lookup h a"
  by (simp add: lookup_def nth_append)

lemma lookup_append: "a < length h \<Longrightarrow> lookup (h @ [x]) a = lookup h a"
  by (simp add: lookup_def nth_append)

lemma get_all_heap_copy:
  assumes ok: "heap_ok h" and d: "val_ok (length h) d"
    and run: "get_all_heap h d = Inr (h', c)"
  shows "c = VRef (length h) \<and> c \<noteq> d
    \<and> (\<exists>a. d = VRef a \<and> lookup h' (length h) = lookup h a)
    \<and> (\<forall>n. value_of n h' c = value_of n h d)
    \<and> (\<forall>n. value_of n h' d = value_of n h d)
    \<and> (\<forall>n obj. value_of n (h'[length h := obj]) d = value_of n h d)"
proof -
  from run obtain a obj where da: "d = VRef a" and la: "lookup h a = Some obj"
    and h': "h' = h @ [obj]" and c: "c = VRef (length h)"
    by (auto simp: get_all_heap_def split: pyval.splits option.splits)
  from d da have a: "a < length h" by simp
  with c da have ne: "c \<noteq> d" by simp
  have lc: "lookup h' (length h) = lookup h a"
    using la by (simp add: h' lookup_def)
  have same: "\<forall>b < length h. lookup h' b = lookup h b"
    by (simp add: h' lookup_append)
  have vd: "\<forall>n. value_of n h' d = value_of n h d"
    using value_of_frame [OF ok same d] by simp
  have vc: "\<forall>n. value_of n h' c = value_of n h d"
  proof
    fix n
    show "value_of n h' c = value_of n h d"
    proof (cases n)
      case 0
      with c da show ?thesis by simp
    next
      case (Suc m)
      from ok a la have oo: "obj_ok (length h) obj"
        by (auto simp: heap_ok_def list_all_length lookup_def)
      have eq: "\<And>v. val_ok (length h) v \<Longrightarrow> value_of m h' v = value_of m h v"
        using value_of_frame [OF ok same] by simp
      show ?thesis
      proof (cases obj)
        case (OList xs)
        with oo have "\<forall>x \<in> set xs. val_ok (length h) x" by (simp add: list_all_iff)
        with eq have m: "map (value_of m h') xs = map (value_of m h) xs" by simp
        from Suc c da la lc OList show ?thesis by (simp add: m)
      next
        case (ODict kvs)
        with oo have "\<forall>(k, x) \<in> set kvs. val_ok (length h) x" by (simp add: list_all_iff)
        with eq have m: "map (\<lambda>(k, v). map_option (Pair k) (value_of m h' v)) kvs
            = map (\<lambda>(k, v). map_option (Pair k) (value_of m h v)) kvs"
          by auto
        from Suc c da la lc ODict show ?thesis by (simp add: m)
      qed
    qed
  qed
  have vm: "\<forall>n obj'. value_of n (h'[length h := obj']) d = value_of n h d"
  proof (intro allI)
    fix n obj'
    have "\<forall>b < length h. lookup (h'[length h := obj']) b = lookup h b"
      by (simp add: h' lookup_append_update lookup_append)
    from value_of_frame [OF ok this d] show "value_of n (h'[length h := obj']) d = value_of n h d" .
  qed
  from c ne da lc vc vd vm show ?thesis by blast
qed

lemma get_all_heap_agrees:
  assumes ok: "heap_ok h" and d: "val_ok (length h) d"
    and run: "get_all_heap h d = Inr (h', c)" and v: "value_of n h d = Some j"
  shows "get_all \<lparr>file_path = p, data = j\<rparr> = Inr j \<and> value_of n h' c = Some j"
proof -
  from run obtain a where da: "d = VRef a"
    by (auto simp: get_all_heap_def split: pyval.splits option.splits)
  from v da obtain m where n: "n = Suc m" by (cases n) auto
  from v da n have "(\<exists>xs. j = JArr xs) \<or> (\<exists>kvs. j = JObj kvs)"
    by (auto split: option.splits pyobj.splits)
  then have g: "get_all \<lparr>file_path = p, data = j\<rparr> = Inr j"
    by (auto simp: get_all_def)
  from get_all_heap_copy [OF ok d run] have "value_of n h' c = value_of n h d" by blast
  with v g show ?thesis by simp
qed

section \<open>The decoder reads back what the encoder writes\<close>

subsection \<open>White space\<close>

lemma skip_ws_not_ws: "\<not> is_ws c \<Longrightarrow> skip_ws (c # s) = c # s"
  by (simp add: skip_ws_def)

lemma skip_ws_newline_indent: "skip_ws (newline_indent n @ s) = skip_ws s"
proof -
  have "\<forall>c \<in> set (newline_indent n). is_ws c"
    by (simp add: newline_indent_def is_ws_def)
  then show ?thesis
    unfolding skip_ws_def by (simp add: dropWhile_append)
qed

lemma skip_ws_space: "skip_ws (CHR '' '' # s) = skip_ws s"
  by (simp add: skip_ws_def is_ws_def)

subsection \<open>Strings\<close>

lemma hex_digit_val: "k < 16 \<Longrightarrow> hex_val (hex_digit k) = Some k"
proof -
  have "\<forall>k \<in> set [0..<16]. hex_val (hex_digit k) = Some k" by code_simp
  then show "k < 16 \<Longrightarrow> hex_val (hex_digit k) = Some k" by simp
qed

lemma hex_val_zero: "hex_val (CHR ''0'') = Some 0"
  by (simp add: hex_val_def)

lemma decode_control: "n < 32 \<Longrightarrow>
  decode_uXXXX (CHR ''0'') (CHR ''0'') (hex_digit (n div 16)) (hex_digit (n mod 16)) = Some n"
proof -
  assume n: "n < 32"
  then have "n div 16 < 16" by simp
  then have a: "hex_val (hex_digit (n div 16)) = Some (n div 16)" by (rule hex_digit_val)
  have b: "hex_val (hex_digit (n mod 16)) = Some (n mod 16)" by (rule hex_digit_val) simp
  show ?thesis by (simp add: decode_uXXXX_def hex_val_zero a b)
qed

lemma scan_unicode_control:
  assumes "n < 32"
  shows "scan_unicode (CHR ''0'' # CHR ''0'' # hex_digit (n div 16) # hex_digit (n mod 16) # s)
    = Some ([char_of n], s)"
  using assms by (simp add: scan_unicode_def decode_control utf8_encode_def)

lemma emit_simp: "emit cs (Some (s, rest)) = Some (cs @ s, rest)"
  by (simp add: emit_def)

lemma scanstring_escape_char:
  assumes "scanstring s = Some (x, rest)"
  shows "scanstring (escape_char c @ s) = Some (c # x, rest)"
proof -
  consider (bs) "c = BSLASH" | (dq) "c = DQUOTE" | (b) "c = CHR 0x08" | (f) "c = CHR 0x0C"
    | (n) "c = CHR 0x0A" | (r) "c = CHR 0x0D" | (t) "c = CHR 0x09"
    | (ctl) "c \<noteq> BSLASH" "c \<noteq> DQUOTE" "c \<noteq> CHR 0x08" "c \<noteq> CHR 0x0C" "c \<noteq> CHR 0x0A"
        "c \<noteq> CHR 0x0D" "c \<noteq> CHR 0x09" "(of_char c :: nat) < 0x20"
    | (plain) "c \<noteq> BSLASH" "c \<noteq> DQUOTE" "\<not> (of_char c :: nat) < 0x20"
    by (cases "(of_char c :: nat) < 0x20") auto
  then show ?thesis
  proof cases
    case ctl
    then have e: "escape_char c = [BSLASH, CHR ''u'', CHR ''0'', CHR ''0'',
        hex_digit (of_char c div 16), hex_digit (of_char c mod 16)]"
      by (simp add: escape_char_def)
    from ctl(8) have "(of_char c :: nat) < 32" by simp
    from scan_unicode_control [OF this]
    show ?thesis by (simp add: e assms emit_simp)
  next
    case plain
    then have "escape_char c = [c]" by (auto simp: escape_char_def)
    with plain assms show ?thesis by (simp add: emit_simp)
  qed (simp_all add: escape_char_def assms backslash_def emit_simp)
qed

lemma scanstring_escaped:
  "scanstring (concat (map escape_char s) @ DQUOTE # rest) = Some (s, rest)"
  by (induction s) (simp_all add: scanstring_escape_char)

lemma scanstring_basestring:
  "scanstring (tl (encode_basestring s) @ rest) = Some (s, rest)"
  using scanstring_escaped [of s rest] by (simp add: encode_basestring_def)

declare digits.simps [simp del]

subsection \<open>Integers\<close>

lemma digit_char: "d < 10 \<Longrightarrow> is_digit (char_of (48 + d)) \<and> digit_val (char_of (48 + d)) = d
  \<and> (char_of (48 + d) = CHR ''0'' \<longleftrightarrow> d = 0)"
proof -
  have "\<forall>d \<in> set [0..<10]. is_digit (char_of (48 + d)) \<and> digit_val (char_of (48 + d)) = d
    \<and> (char_of (48 + d) = CHR ''0'' \<longleftrightarrow> d = 0)"
    by code_simp
  then show "d < 10 \<Longrightarrow> is_digit (char_of (48 + d)) \<and> digit_val (char_of (48 + d)) = d
    \<and> (char_of (48 + d) = CHR ''0'' \<longleftrightarrow> d = 0)" by simp
qed

lemma is_digit_not_special:
  "is_digit c \<Longrightarrow> c \<noteq> CHR ''n'' \<and> c \<noteq> CHR ''t'' \<and> c \<noteq> CHR ''f'' \<and> c \<noteq> DQUOTE
     \<and> c \<noteq> CHR ''{'' \<and> c \<noteq> CHR ''['' \<and> c \<noteq> CHR ''-'' \<and> \<not> is_ws c"
  by (auto simp: is_digit_def is_ws_def)

lemma digits_shape:
  "\<exists>d ds. digits n = d # ds \<and> is_digit d \<and> (\<forall>c \<in> set ds. is_digit c)
     \<and> (d = CHR ''0'' \<longrightarrow> n = 0) \<and> (n = 0 \<longrightarrow> ds = [])"
proof (induction n rule: digits.induct)
  case (1 n)
  show ?case
  proof (cases "n < 10")
    case True
    then have "digits n = [char_of (48 + n)]" by (subst digits.simps) simp
    with digit_char [OF True] show ?thesis by auto
  next
    case False
    from "1.IH" [OF False] obtain d ds where
      s: "digits (n div 10) = d # ds" "is_digit d" "\<forall>c \<in> set ds. is_digit c"
        "d = CHR ''0'' \<longrightarrow> n div 10 = 0"
      by blast
    from False have pos: "n div 10 \<noteq> 0" by simp
    have m: "n mod 10 < 10" by simp
    from False s have "digits n = d # (ds @ [char_of (48 + n mod 10)])"
      by (subst digits.simps) simp
    with s pos digit_char [OF m] False show ?thesis by auto
  qed
qed

lemma nat_of_digits_snoc: "nat_of_digits (ds @ [c]) = 10 * nat_of_digits ds + digit_val c"
  by (simp add: nat_of_digits_def)

lemma nat_of_digits_digits: "nat_of_digits (digits n) = n"
proof (induction n rule: digits.induct)
  case (1 n)
  show ?case
  proof (cases "n < 10")
    case True
    then have "digits n = [char_of (48 + n)]" by (subst digits.simps) simp
    with digit_char [OF True] show ?thesis by (simp add: nat_of_digits_def)
  next
    case False
    have m: "n mod 10 < 10" by simp
    from False have "digits n = digits (n div 10) @ [char_of (48 + n mod 10)]"
      by (subst digits.simps) simp
    with "1.IH" [OF False] digit_char [OF m] show ?thesis
      by (simp add: nat_of_digits_snoc)
  qed
qed

lemma takeWhile_all_digits:
  assumes "\<forall>c \<in> set ds. is_digit c"
  shows "takeWhile is_digit ds = ds" and "dropWhile is_digit ds = []"
    and "\<not> is_digit c \<Longrightarrow> takeWhile is_digit (ds @ c # r) = ds"
    and "\<not> is_digit c \<Longrightarrow> dropWhile is_digit (ds @ c # r) = c # r"
  using assms by (simp_all add: takeWhile_append dropWhile_append)

lemma match_number_plain:
  assumes d: "is_digit d" and ds: "\<forall>c \<in> set ds. is_digit c"
    and z: "d = CHR ''0'' \<longrightarrow> ds = []" and e: "num_end rest"
  shows "match_number (d # ds @ rest) = Some (d # ds, [], [], rest)"
proof -
  from d have nm: "d \<noteq> CHR ''-''" using is_digit_not_special by blast
  note tw = takeWhile_all_digits [OF ds]
  show ?thesis
  proof (cases rest)
    case Nil
    with nm d z show ?thesis
      by (cases "d = CHR ''0''") (simp_all add: match_number_def tw(1,2))
  next
    case (Cons c r)
    with e have c: "\<not> is_digit c" "c \<noteq> CHR ''.''" "c \<noteq> CHR ''e''" "c \<noteq> CHR ''E''"
      by (simp_all add: num_end_def)
    from Cons nm d z c show ?thesis
      by (cases "d = CHR ''0''") (simp_all add: match_number_def tw(3,4) [OF c(1)])
  qed
qed

lemma match_number_minus:
  assumes d: "is_digit d" and ds: "\<forall>c \<in> set ds. is_digit c"
    and z: "d \<noteq> CHR ''0''" and e: "num_end rest"
  shows "match_number (CHR ''-'' # d # ds @ rest) = Some (CHR ''-'' # d # ds, [], [], rest)"
proof -
  note tw = takeWhile_all_digits [OF ds]
  show ?thesis
  proof (cases rest)
    case Nil
    with d z show ?thesis
      by (simp add: match_number_def tw(1,2))
  next
    case (Cons c r)
    with e have c: "\<not> is_digit c" "c \<noteq> CHR ''.''" "c \<noteq> CHR ''e''" "c \<noteq> CHR ''E''"
      by (simp_all add: num_end_def)
    from Cons d z c show ?thesis
      by (simp add: match_number_def tw(3,4) [OF c(1)])
  qed
qed

lemma match_number_digits:
  assumes "num_end rest"
  shows "match_number (digits n @ rest) = Some (digits n, [], [], rest)"
proof -
  from digits_shape [of n] obtain d ds where
    s: "digits n = d # ds" "is_digit d" "\<forall>c \<in> set ds. is_digit c"
      "d = CHR ''0'' \<longrightarrow> n = 0" "n = 0 \<longrightarrow> ds = []"
    by blast
  from s(4,5) have z: "d = CHR ''0'' \<longrightarrow> ds = []" by blast
  from match_number_plain [OF s(2) s(3) z assms] show ?thesis
    by (simp only: s(1) append_Cons)
qed

lemma match_number_negative:
  assumes "num_end rest" and "0 < n"
  shows "match_number (CHR ''-'' # digits n @ rest) = Some (CHR ''-'' # digits n, [], [], rest)"
proof -
  from digits_shape [of n] obtain d ds where
    s: "digits n = d # ds" "is_digit d" "\<forall>c \<in> set ds. is_digit c"
      "d = CHR ''0'' \<longrightarrow> n = 0"
    by blast
  from s(4) assms(2) have nz: "d \<noteq> CHR ''0''" by auto
  from match_number_minus [OF s(2) s(3) nz assms(1)] show ?thesis
    by (simp only: s(1) append_Cons)
qed

lemma parse_int_digits: "parse_int (digits n) = int n"
proof -
  from digits_shape [of n] obtain d ds where s: "digits n = d # ds" "is_digit d" by blast
  from s(2) have "d \<noteq> CHR ''-''" using is_digit_not_special by blast
  with s(1) nat_of_digits_digits [of n] show ?thesis by (simp add: parse_int_def)
qed

lemma parse_int_negative: "parse_int (CHR ''-'' # digits n) = - int n"
  by (simp add: parse_int_def nat_of_digits_digits)

lemma int_repr_first:
  "\<exists>c r. int_repr i = c # r \<and> (is_digit c \<or> c = CHR ''-'')"
proof (cases "i < 0")
  case True
  then show ?thesis by (simp add: int_repr_def)
next
  case False
  with digits_shape [of "nat i"] show ?thesis by (auto simp: int_repr_def)
qed

lemma filter_digits: "filter is_digit (digits n) = digits n"
proof -
  from digits_shape [of n] obtain d ds where
    s: "digits n = d # ds" "is_digit d" "\<forall>c \<in> set ds. is_digit c" by blast
  then show ?thesis by simp
qed

lemma scan_atom_int:
  assumes "num_end rest" and lim: "\<not> too_many_digits lim (length (digits (nat \<bar>i\<bar>)))"
  shows "scan_atom lim (int_repr i @ rest) = Inr (JInt i, rest)"
proof (cases "i < 0")
  case True
  then have pos: "0 < nat (- i)" by simp
  from True have r: "int_repr i = CHR ''-'' # digits (nat (- i))" by (simp add: int_repr_def)
  from True have v: "- int (nat (- i)) = i" by simp
  from True have a: "nat \<bar>i\<bar> = nat (- i)" by simp
  have nd: "\<not> is_digit (CHR ''-'')" by (simp add: is_digit_def)
  from lim a have l: "\<not> too_many_digits lim (length (digits (nat (- i))))" by simp
  show ?thesis
    unfolding r scan_atom_def using True l
    by (simp add: match_number_negative [OF assms(1) pos] parse_int_negative nd filter_digits)
next
  case False
  then have r: "int_repr i = digits (nat i)" by (simp add: int_repr_def)
  from False have v: "int (nat i) = i" by simp
  from False have a: "nat \<bar>i\<bar> = nat i" by simp
  from digits_shape [of "nat i"] obtain d ds where s: "digits (nat i) = d # ds" "is_digit d"
    by blast
  from s(2) have n: "d \<noteq> CHR ''n''" "d \<noteq> CHR ''t''" "d \<noteq> CHR ''f''"
    using is_digit_not_special by blast+
  have m: "match_number (d # ds @ rest) = Some (d # ds, [], [], rest)"
    using match_number_digits [OF assms(1), of "nat i"] s(1) by simp
  have p: "parse_int (d # ds) = i" using parse_int_digits [of "nat i"] s(1) v by simp
  from lim a s(1) have l: "\<not> too_many_digits lim (length (filter is_digit (d # ds)))"
    using filter_digits [of "nat i"] by simp
  show ?thesis
    unfolding r scan_atom_def s(1) using n l by (simp add: m p)
qed

subsection \<open>Floats\<close>

text \<open>The number pattern matches the same literal when a comma, a line break or the
  end of the text follows it, and the parts it returns make up the text it has read.\<close>

lemma digit_run_append:
  assumes "delim rest"
  shows "takeWhile is_digit (xs @ rest) = takeWhile is_digit xs"
    and "dropWhile is_digit (xs @ rest) = dropWhile is_digit xs @ rest"
proof -
  have "takeWhile is_digit (xs @ rest) = takeWhile is_digit xs
      \<and> dropWhile is_digit (xs @ rest) = dropWhile is_digit xs @ rest"
  proof (cases rest)
    case Nil
    then show ?thesis by simp
  next
    case (Cons c r)
    with assms have "\<not> is_digit c" by (auto simp: delim_def is_digit_def)
    with Cons show ?thesis by (induction xs) simp_all
  qed
  then show "takeWhile is_digit (xs @ rest) = takeWhile is_digit xs"
    and "dropWhile is_digit (xs @ rest) = dropWhile is_digit xs @ rest" by simp_all
qed

lemma delim_head:
  assumes "delim rest"
  shows "rest = [] \<or> (\<exists>c r. rest = c # r \<and> c \<noteq> CHR ''.'' \<and> c \<noteq> CHR ''e'' \<and> c \<noteq> CHR ''E''
    \<and> c \<noteq> CHR ''-'' \<and> c \<noteq> CHR ''+'' \<and> \<not> is_digit c)"
  using assms by (cases rest) (auto simp: delim_def is_digit_def)

lemma frac_stage_append:
  assumes dl: "delim rest" and st: "(case s2 of
       p # r2 \<Rightarrow>
         if p = CHR ''.'' \<and> takeWhile is_digit r2 \<noteq> []
         then (p # takeWhile is_digit r2, dropWhile is_digit r2)
         else ([], s2)
     | [] \<Rightarrow> ([], s2)) = (fr, s3)"
  shows "(case s2 @ rest of
       p # r2 \<Rightarrow>
         if p = CHR ''.'' \<and> takeWhile is_digit r2 \<noteq> []
         then (p # takeWhile is_digit r2, dropWhile is_digit r2)
         else ([], s2 @ rest)
     | [] \<Rightarrow> ([], s2 @ rest)) = (fr, s3 @ rest)"
    and "s2 = fr @ s3"
proof -
  show "s2 = fr @ s3" using st by (cases s2) (auto split: if_splits)
  show "(case s2 @ rest of
       p # r2 \<Rightarrow>
         if p = CHR ''.'' \<and> takeWhile is_digit r2 \<noteq> []
         then (p # takeWhile is_digit r2, dropWhile is_digit r2)
         else ([], s2 @ rest)
     | [] \<Rightarrow> ([], s2 @ rest)) = (fr, s3 @ rest)"
  proof (cases s2)
    case Nil
    with st have "fr = []" "s3 = []" by simp_all
    with Nil delim_head [OF dl] show ?thesis by auto
  next
    case (Cons p r2)
    with st show ?thesis by (auto simp: digit_run_append [OF dl] split: if_splits)
  qed
qed

lemma exp_stage_append:
  assumes dl: "delim rest" and st: "(case s3 of
       e # r3 \<Rightarrow>
         if e = CHR ''e'' \<or> e = CHR ''E'' then
           (case (case r3 of
                     g # r5 \<Rightarrow> if g = CHR ''-'' \<or> g = CHR ''+'' then ([g], r5) else ([], r3)
                   | [] \<Rightarrow> ([], r3)) of
              (sg, r4) \<Rightarrow>
                if takeWhile is_digit r4 \<noteq> []
                then (e # sg @ takeWhile is_digit r4, dropWhile is_digit r4)
                else ([], s3))
         else ([], s3)
     | [] \<Rightarrow> ([], s3)) = (ex, s4)"
  shows "(case s3 @ rest of
       e # r3 \<Rightarrow>
         if e = CHR ''e'' \<or> e = CHR ''E'' then
           (case (case r3 of
                     g # r5 \<Rightarrow> if g = CHR ''-'' \<or> g = CHR ''+'' then ([g], r5) else ([], r3)
                   | [] \<Rightarrow> ([], r3)) of
              (sg, r4) \<Rightarrow>
                if takeWhile is_digit r4 \<noteq> []
                then (e # sg @ takeWhile is_digit r4, dropWhile is_digit r4)
                else ([], s3 @ rest))
         else ([], s3 @ rest)
     | [] \<Rightarrow> ([], s3 @ rest)) = (ex, s4 @ rest)"
    and "s3 = ex @ s4"
proof -
  show "s3 = ex @ s4" using st
    by (cases s3) (auto split: if_splits list.splits)
  show "(case s3 @ rest of
       e # r3 \<Rightarrow>
         if e = CHR ''e'' \<or> e = CHR ''E'' then
           (case (case r3 of
                     g # r5 \<Rightarrow> if g = CHR ''-'' \<or> g = CHR ''+'' then ([g], r5) else ([], r3)
                   | [] \<Rightarrow> ([], r3)) of
              (sg, r4) \<Rightarrow>
                if takeWhile is_digit r4 \<noteq> []
                then (e # sg @ takeWhile is_digit r4, dropWhile is_digit r4)
                else ([], s3 @ rest))
         else ([], s3 @ rest)
     | [] \<Rightarrow> ([], s3 @ rest)) = (ex, s4 @ rest)"
  proof (cases s3)
    case Nil
    with st have "ex = []" "s4 = []" by simp_all
    with Nil delim_head [OF dl] show ?thesis by auto
  next
    case s3: (Cons e r3)
    show ?thesis
    proof (cases r3)
      case Nil
      with st s3 have "ex = []" "s4 = s3" by (auto split: if_splits)
      with Nil s3 delim_head [OF dl] show ?thesis by auto
    next
      case (Cons g r5)
      with st s3 show ?thesis
        by (auto simp: digit_run_append [OF dl] split: if_splits)
    qed
  qed
qed

lemma match_number_append:
  assumes m: "match_number s = Some (i, fr, ex, r)" and dl: "delim rest"
  shows "match_number (s @ rest) = Some (i, fr, ex, r @ rest)"
    and "s = i @ fr @ ex @ r"
    and "\<exists>c cs. s = c # cs \<and> (is_digit c \<or> c = CHR ''-'')"
proof -
  obtain sign s1 where sg: "(case s of c # r \<Rightarrow> if c = CHR ''-'' then ([c], r) else ([], s)
      | [] \<Rightarrow> ([], s)) = (sign, s1)"
    by (rule prod.exhaust)
  from m sg obtain d r0 where s1: "s1 = d # r0" and dig: "is_digit d"
    by (cases s1) (auto simp: match_number_def Let_def split: if_splits)
  from sg s1 have ss: "s = sign @ d # r0"
    by (cases s) (auto split: if_splits)
  from sg s1 have sg': "(case s @ rest of c # r \<Rightarrow> if c = CHR ''-'' then ([c], r) else ([], s @ rest)
      | [] \<Rightarrow> ([], s @ rest)) = (sign, d # r0 @ rest)"
    by (cases s) (auto split: if_splits)
  from sg s1 dig show "\<exists>c cs. s = c # cs \<and> (is_digit c \<or> c = CHR ''-'')"
    by (cases s) (auto split: if_splits)
  obtain ipart s2 where ip: "(if d = CHR ''0'' then ([d], r0)
      else (d # takeWhile is_digit r0, dropWhile is_digit r0)) = (ipart, s2)"
    by (rule prod.exhaust)
  from ip have ip': "(if d = CHR ''0'' then ([d], r0 @ rest)
      else (d # takeWhile is_digit (r0 @ rest), dropWhile is_digit (r0 @ rest))) = (ipart, s2 @ rest)"
    by (auto simp: digit_run_append [OF dl] split: if_splits)
  from ip have si: "d # r0 = ipart @ s2" by (auto split: if_splits)
  obtain fr' s3 where f: "(case s2 of
       p # r2 \<Rightarrow>
         if p = CHR ''.'' \<and> takeWhile is_digit r2 \<noteq> []
         then (p # takeWhile is_digit r2, dropWhile is_digit r2)
         else ([], s2)
     | [] \<Rightarrow> ([], s2)) = (fr', s3)"
    by (rule prod.exhaust)
  note f' = frac_stage_append [OF dl f]
  obtain ex' s4 where e: "(case s3 of
       e # r3 \<Rightarrow>
         if e = CHR ''e'' \<or> e = CHR ''E'' then
           (case (case r3 of
                     g # r5 \<Rightarrow> if g = CHR ''-'' \<or> g = CHR ''+'' then ([g], r5) else ([], r3)
                   | [] \<Rightarrow> ([], r3)) of
              (sg, r4) \<Rightarrow>
                if takeWhile is_digit r4 \<noteq> []
                then (e # sg @ takeWhile is_digit r4, dropWhile is_digit r4)
                else ([], s3))
         else ([], s3)
     | [] \<Rightarrow> ([], s3)) = (ex', s4)"
    by (rule prod.exhaust)
  note e' = exp_stage_append [OF dl e]
  have "match_number s = Some (sign @ ipart, fr', ex', s4)"
    unfolding match_number_def sg Let_def prod.case s1 list.case using dig
    by (simp add: ip f e)
  with m have eq: "i = sign @ ipart" "fr = fr'" "ex = ex'" "r = s4" by simp_all
  have "match_number (s @ rest) = Some (sign @ ipart, fr', ex', s4 @ rest)"
    unfolding match_number_def sg' Let_def prod.case list.case using dig
    by (simp add: ip' f'(1) e'(1))
  with eq show "match_number (s @ rest) = Some (i, fr, ex, r @ rest)" by simp
  from ss si f'(2) e'(2) eq show "s = i @ fr @ ex @ r" by simp
qed

lemma scan_atom_float:
  assumes "float_literal lit" and "delim rest"
  shows "scan_atom lim (lit @ rest) = Inr (JFloat lit, rest)"
proof -
  from assms(1) obtain i fr ex where m: "match_number lit = Some (i, fr, ex, [])"
    and fe: "fr \<noteq> [] \<or> ex \<noteq> []"
    by (auto simp: float_literal_def split: option.splits)
  note a = match_number_append [OF m assms(2)]
  from a(3) obtain c cs where c: "lit = c # cs" "is_digit c \<or> c = CHR ''-''" by blast
  then have n: "c \<noteq> CHR ''n''" "c \<noteq> CHR ''t''" "c \<noteq> CHR ''f''"
    by (auto simp: is_digit_def)
  from a(2) have l: "i @ fr @ ex = lit" by simp
  from a(1) c(1) have m': "match_number (c # cs @ rest) = Some (i, fr, ex, rest)" by simp
  from l c(1) have l': "i @ fr @ ex = c # cs" by simp
  show ?thesis
    unfolding scan_atom_def c(1) using n fe by (auto simp: m' l')
qed

lemma float_literal_first:
  "float_literal lit \<Longrightarrow> \<exists>c cs. lit = c # cs \<and> (is_digit c \<or> c = CHR ''-'')"
proof -
  assume "float_literal lit"
  then obtain i fr ex where m: "match_number lit = Some (i, fr, ex, [])"
    by (auto simp: float_literal_def split: option.splits)
  have "delim []" by (simp add: delim_def)
  from match_number_append(3) [OF m this] show ?thesis .
qed

subsection \<open>Values\<close>

declare scan_once.simps [simp del] array_items.simps [simp del] object_items.simps [simp del]

lemma delim_num_end: "delim rest \<Longrightarrow> num_end rest"
  by (auto simp: delim_def num_end_def is_digit_def split: list.splits)

lemma delim_newline_indent: "delim (newline_indent l @ s)"
  by (simp add: delim_def newline_indent_def)

lemma delim_comma: "delim (CHR '','' # s)"
  by (simp add: delim_def)

lemma scan_once_string:
  "scan_once lim d (DQUOTE # cs) =
     (case scanstring cs of None \<Rightarrow> Inl JSONDecodeError | Some (x, r) \<Rightarrow> Inr (JStr x, r))"
  by (subst scan_once.simps) simp

lemma scan_once_object:
  "scan_once lim d (CHR ''{'' # cs) =
     (if d = 0 then Inl RecursionError
      else
        (case skip_ws cs of
           [] \<Rightarrow> Inl JSONDecodeError
         | n # r \<Rightarrow>
             if n = CHR ''}'' then Inr (JObj [], r)
             else if n = DQUOTE then object_items lim (d - 1) r []
             else Inl JSONDecodeError))"
  by (subst scan_once.simps) simp

lemma scan_once_array:
  "scan_once lim d (CHR ''['' # cs) =
     (if d = 0 then Inl RecursionError
      else
        (case skip_ws cs of
           [] \<Rightarrow> Inl JSONDecodeError
         | n # r \<Rightarrow>
             if n = CHR '']'' then Inr (JArr [], r)
             else array_items lim (d - 1) (n # r) []))"
  by (subst scan_once.simps) simp

lemma scan_once_atom:
  "c \<noteq> DQUOTE \<Longrightarrow> c \<noteq> CHR ''{'' \<Longrightarrow> c \<noteq> CHR ''['' \<Longrightarrow>
     scan_once lim d (c # cs) = scan_atom lim (c # cs)"
  by (subst scan_once.simps) simp

lemma encode_basestring_Cons:
  "encode_basestring s = DQUOTE # tl (encode_basestring s)"
  by (simp add: encode_basestring_def)

lemma iterencode_first:
  "wf_json v \<Longrightarrow> \<exists>c r. iterencode lvl v = c # r \<and> \<not> is_ws c \<and> c \<noteq> CHR '']''"
proof (cases v)
  case (JInt i)
  from int_repr_first [of i] obtain c r where "int_repr i = c # r" "is_digit c \<or> c = CHR ''-''"
    by blast
  with JInt show ?thesis by (auto simp: is_digit_def is_ws_def)
next
  case (JFloat lit)
  assume "wf_json v"
  with JFloat have "float_literal lit" by simp
  from float_literal_first [OF this] obtain c r where "lit = c # r" "is_digit c \<or> c = CHR ''-''"
    by blast
  with JFloat show ?thesis by (auto simp: is_digit_def is_ws_def)
qed (auto simp: is_ws_def encode_basestring_def)

lemma iterencode_list_first:
  "wf_list xs \<Longrightarrow> xs \<noteq> [] \<Longrightarrow>
     \<exists>c r. iterencode_list lvl xs = c # r \<and> \<not> is_ws c \<and> c \<noteq> CHR '']''"
proof (cases xs)
  case Nil
  then show "xs \<noteq> [] \<Longrightarrow> ?thesis" by simp
next
  case (Cons x ys)
  assume "wf_list xs"
  with Cons have "wf_json x" by simp
  from iterencode_first [OF this, of lvl] obtain c r where
    "iterencode lvl x = c # r" "\<not> is_ws c" "c \<noteq> CHR '']''" by blast
  with Cons show ?thesis by (cases ys) auto
qed

lemma iterencode_dict_first:
  "kvs \<noteq> [] \<Longrightarrow> iterencode_dict lvl kvs = DQUOTE # tl (iterencode_dict lvl kvs)"
proof (cases kvs)
  case Nil
  then show "kvs \<noteq> [] \<Longrightarrow> ?thesis" by simp
next
  case (Cons a ys)
  obtain k v where "a = (k, v)" by (cases a)
  with Cons show ?thesis by (cases ys) (simp_all add: encode_basestring_def)
qed

lemma not_ws_special:
  "\<not> is_ws DQUOTE" "\<not> is_ws (CHR '']'')" "\<not> is_ws (CHR ''}'')" "\<not> is_ws (CHR '','')"
  "\<not> is_ws (CHR '':'')" "\<not> is_ws (CHR ''['')" "\<not> is_ws (CHR ''{'')"
  by (simp_all add: is_ws_def)

lemma array_items_error:
  "scan_once lim d s = Inl e \<Longrightarrow> array_items lim d s acc = Inl e"
  by (subst array_items.simps) simp

lemma array_items_last:
  assumes "scan_once lim d (e @ newline_indent l @ CHR '']'' # rest)
      = Inr (v, newline_indent l @ CHR '']'' # rest)" and "e \<noteq> []"
  shows "array_items lim d (e @ newline_indent l @ CHR '']'' # rest) acc
    = Inr (JArr (acc @ [v]), rest)"
  using assms
  by (subst array_items.simps)
    (simp add: skip_ws_newline_indent skip_ws_not_ws not_ws_special)

lemma array_items_step:
  assumes "scan_once lim d (e @ CHR '','' # newline_indent l @ c # s)
      = Inr (v, CHR '','' # newline_indent l @ c # s)" and "e \<noteq> []" and "\<not> is_ws c"
  shows "array_items lim d (e @ CHR '','' # newline_indent l @ c # s) acc
    = array_items lim d (c # s) (acc @ [v])"
  using assms
  by (subst array_items.simps)
    (simp add: skip_ws_newline_indent skip_ws_not_ws not_ws_special)

lemma object_items_last:
  assumes "scan_once lim d (c # e @ newline_indent l @ CHR ''}'' # rest)
      = Inr (v, newline_indent l @ CHR ''}'' # rest)" and "\<not> is_ws c"
  shows "object_items lim d
      (tl (encode_basestring k) @ '': '' @ c # e @ newline_indent l @ CHR ''}'' # rest) acc
    = Inr (JObj (dict_update [] (acc @ [(k, v)])), rest)"
  using assms
  by (subst object_items.simps)
    (simp add: scanstring_basestring skip_ws_newline_indent skip_ws_not_ws not_ws_special
      skip_ws_space)

lemma object_items_step:
  assumes "scan_once lim d (c # e @ CHR '','' # newline_indent l @ DQUOTE # s)
      = Inr (v, CHR '','' # newline_indent l @ DQUOTE # s)" and "\<not> is_ws c"
  shows "object_items lim d
      (tl (encode_basestring k) @ '': '' @ c # e @ CHR '','' # newline_indent l @ DQUOTE # s) acc
    = object_items lim d s (acc @ [(k, v)])"
  using assms
  by (subst object_items.simps)
    (simp add: scanstring_basestring skip_ws_newline_indent skip_ws_not_ws not_ws_special
      skip_ws_space)

lemma dict_setitem_fresh: "k \<notin> fst ` set d \<Longrightarrow> dict_setitem d k v = d @ [(k, v)]"
  by (induction d) auto

lemma dict_update_distinct: "distinct (map fst kvs) \<Longrightarrow> dict_update [] kvs = kvs"
proof (induction kvs rule: rev_induct)
  case Nil
  then show ?case by (simp add: dict_update_def)
next
  case (snoc a kvs)
  obtain k v where a: "a = (k, v)" by (cases a)
  from snoc.prems a have "k \<notin> fst ` set kvs" and "distinct (map fst kvs)" by auto
  with snoc.IH a show ?case by (simp add: dict_update_snoc dict_setitem_fresh)
qed

text \<open>
  The decoder reads back the value from the text of the encoder, when its depth
  allows the lists and dictionaries of the value and its limit on digits the integers.
\<close>

lemma decode_encode:
  "wf_json v \<Longrightarrow> delim rest \<Longrightarrow> depth v \<le> d \<Longrightarrow> ints_ok lim v \<Longrightarrow>
     scan_once lim d (iterencode lvl v @ rest) = Inr (v, rest)"
  "wf_list xs \<Longrightarrow> xs \<noteq> [] \<Longrightarrow> depth_list xs \<le> d1 \<Longrightarrow> ints_ok_list lim xs \<Longrightarrow>
     array_items lim d1 (iterencode_list lvl xs @ newline_indent l @ CHR '']'' # rest1) acc
       = Inr (JArr (acc @ xs), rest1)"
  "wf_items kvs \<Longrightarrow> kvs \<noteq> [] \<Longrightarrow> depth_items kvs \<le> d2 \<Longrightarrow> ints_ok_items lim kvs \<Longrightarrow>
     object_items lim d2 (tl (iterencode_dict lvl kvs) @ newline_indent l2 @ CHR ''}'' # rest2) acc2
       = Inr (JObj (dict_update [] (acc2 @ kvs)), rest2)"
proof (induction lvl v and lvl xs and lvl kvs
    arbitrary: rest d and rest1 acc l d1 and rest2 acc2 l2 d2
    rule: iterencode_iterencode_list_iterencode_dict.induct)
  case (1 lvl)
  show ?case by (simp add: scan_once_atom scan_atom_def)
next
  case (2 lvl b)
  show ?case by (cases b) (simp_all add: scan_once_atom scan_atom_def)
next
  case (3 lvl i)
  from int_repr_first [of i] obtain c r where c: "int_repr i = c # r" "is_digit c \<or> c = CHR ''-''"
    by blast
  then have "c \<noteq> DQUOTE" "c \<noteq> CHR ''{''" "c \<noteq> CHR ''[''"
    by (auto simp: is_digit_def)
  then have "scan_once lim d (c # r @ rest) = scan_atom lim (c # r @ rest)"
    by (rule scan_once_atom)
  moreover from "3.prems"(4) have "\<not> too_many_digits lim (length (digits (nat \<bar>i\<bar>)))" by simp
  from scan_atom_int [OF delim_num_end [OF "3.prems"(2)] this]
  have "scan_atom lim (c # r @ rest) = Inr (JInt i, rest)" by (simp add: c(1))
  ultimately show ?case by (simp add: c(1))
next
  case (4 lvl lit)
  from "4.prems"(1) have fl: "float_literal lit" by simp
  from float_literal_first [OF fl] obtain c r where
    c: "lit = c # r" "is_digit c \<or> c = CHR ''-''" by blast
  then have "c \<noteq> DQUOTE" "c \<noteq> CHR ''{''" "c \<noteq> CHR ''[''"
    by (auto simp: is_digit_def)
  then have "scan_once lim d (c # r @ rest) = scan_atom lim (c # r @ rest)"
    by (rule scan_once_atom)
  with scan_atom_float [OF fl "4.prems"(2), of lim] show ?case by (simp add: c(1))
next
  case (5 lvl s)
  show ?case
    using scanstring_escaped [of s rest]
    by (simp add: encode_basestring_def scan_once_string)
next
  case (6 lvl xs)
  from "6.prems"(3) have d: "d \<noteq> 0" and dl: "depth_list xs \<le> d - 1" by simp_all
  show ?case
  proof (cases "xs = []")
    case True
    with d show ?thesis
      by (simp add: scan_once_array skip_ws_not_ws not_ws_special)
  next
    case False
    from "6.prems"(1) have wf: "wf_list xs" by simp
    from "6.prems"(4) have io: "ints_ok_list lim xs" by simp
    from iterencode_list_first [OF wf False, of "lvl + 1"] obtain c r where
      f: "iterencode_list (lvl + 1) xs = c # r" "\<not> is_ws c" "c \<noteq> CHR '']''" by blast
    from f(1) have f': "iterencode_list (Suc lvl) xs = c # r" by simp
    from "6.IH" [OF False wf False dl io, of lvl rest "[]"]
    have "array_items lim (d - 1) (c # r @ newline_indent lvl @ CHR '']'' # rest) []
        = Inr (JArr xs, rest)"
      by (simp add: f')
    with False f(2,3) d show ?thesis
      by (simp add: f' scan_once_array skip_ws_newline_indent skip_ws_not_ws)
  qed
next
  case (7 lvl kvs)
  from "7.prems"(3) have d: "d \<noteq> 0" and dl: "depth_items kvs \<le> d - 1" by simp_all
  show ?case
  proof (cases "kvs = []")
    case True
    with d show ?thesis
      by (simp add: scan_once_object skip_ws_not_ws not_ws_special)
  next
    case False
    from "7.prems"(1) have wf: "wf_items kvs" and dist: "distinct (map fst kvs)" by simp_all
    from "7.prems"(4) have io: "ints_ok_items lim kvs" by simp
    from iterencode_dict_first [OF False, of "lvl + 1"]
    have f: "iterencode_dict (lvl + 1) kvs = DQUOTE # tl (iterencode_dict (lvl + 1) kvs)" .
    from f have f': "iterencode_dict (Suc lvl) kvs = DQUOTE # tl (iterencode_dict (Suc lvl) kvs)"
      by simp
    from "7.IH" [OF False wf False dl io, of lvl rest "[]"]
    have o: "object_items lim (d - 1)
          (tl (iterencode_dict (Suc lvl) kvs) @ newline_indent lvl @ CHR ''}'' # rest) []
        = Inr (JObj kvs, rest)"
      by (simp add: dict_update_distinct [OF dist])
    have "scan_once lim d (CHR ''{'' # newline_indent (Suc lvl)
            @ (DQUOTE # tl (iterencode_dict (Suc lvl) kvs)) @ newline_indent lvl @ CHR ''}'' # rest)
        = Inr (JObj kvs, rest)"
      using d o
      by (simp add: scan_once_object skip_ws_newline_indent skip_ws_not_ws not_ws_special)
    then have "scan_once lim d (CHR ''{'' # newline_indent (Suc lvl)
            @ iterencode_dict (Suc lvl) kvs @ newline_indent lvl @ CHR ''}'' # rest)
        = Inr (JObj kvs, rest)"
      by (simp only: f' [symmetric])
    with False show ?thesis by simp
  qed
next
  case (8 lvl)
  then show ?case by simp
next
  case (9 lvl x)
  from "9.prems"(1) have wf: "wf_json x" by simp
  from "9.prems"(3) have dx: "depth x \<le> d1" by simp
  from "9.prems"(4) have io: "ints_ok lim x" by simp
  from iterencode_first [OF wf, of lvl] have ne: "iterencode lvl x \<noteq> []" by auto
  from "9.IH" [OF wf delim_newline_indent dx io, of l "CHR '']'' # rest1"]
  have "scan_once lim d1 (iterencode lvl x @ newline_indent l @ CHR '']'' # rest1)
      = Inr (x, newline_indent l @ CHR '']'' # rest1)" .
  from array_items_last [OF this ne] show ?case by simp
next
  case (10 lvl x y xs)
  from "10.prems"(1) have wf: "wf_json x" and wfs: "wf_list (y # xs)" by simp_all
  from "10.prems"(3) have dx: "depth x \<le> d1" and dxs: "depth_list (y # xs) \<le> d1" by simp_all
  from "10.prems"(4) have io: "ints_ok lim x" and ios: "ints_ok_list lim (y # xs)" by simp_all
  from iterencode_first [OF wf, of lvl] have ne: "iterencode lvl x \<noteq> []" by auto
  from iterencode_list_first [OF wfs, of lvl] obtain c r where
    f: "iterencode_list lvl (y # xs) = c # r" "\<not> is_ws c" by blast
  let ?tail = "r @ newline_indent l @ CHR '']'' # rest1"
  from "10.IH"(1) [OF wf delim_comma dx io, of "newline_indent lvl @ c # ?tail"]
  have "scan_once lim d1 (iterencode lvl x @ CHR '','' # newline_indent lvl @ c # ?tail)
      = Inr (x, CHR '','' # newline_indent lvl @ c # ?tail)" .
  from array_items_step [OF this ne f(2)]
  have "array_items lim d1 (iterencode lvl x @ CHR '','' # newline_indent lvl @ c # ?tail) acc
      = array_items lim d1 (c # ?tail) (acc @ [x])" .
  also have "c # ?tail = iterencode_list lvl (y # xs) @ newline_indent l @ CHR '']'' # rest1"
    by (simp add: f(1))
  also have "array_items lim d1 \<dots> (acc @ [x]) = Inr (JArr ((acc @ [x]) @ y # xs), rest1)"
    by (rule "10.IH"(2) [OF wfs _ dxs ios]) simp
  finally show ?case by simp
next
  case (11 lvl)
  then show ?case by simp
next
  case (12 lvl k v)
  from "12.prems"(1) have wf: "wf_json v" by simp
  from "12.prems"(3) have dv: "depth v \<le> d2" by simp
  from "12.prems"(4) have io: "ints_ok lim v" by simp
  from iterencode_first [OF wf, of lvl] obtain c e where
    f: "iterencode lvl v = c # e" "\<not> is_ws c" by blast
  from "12.IH" [OF wf delim_newline_indent dv io, of l2 "CHR ''}'' # rest2"]
  have "scan_once lim d2 (c # e @ newline_indent l2 @ CHR ''}'' # rest2)
      = Inr (v, newline_indent l2 @ CHR ''}'' # rest2)"
    by (simp add: f(1))
  from object_items_last [OF this f(2), of k acc2] show ?case
    by (simp add: encode_basestring_def f(1))
next
  case (13 lvl k v y kvs)
  from "13.prems"(1) have wf: "wf_json v" and wfs: "wf_items (y # kvs)" by simp_all
  from "13.prems"(3) have dv: "depth v \<le> d2" and dvs: "depth_items (y # kvs) \<le> d2"
    by simp_all
  from "13.prems"(4) have io: "ints_ok lim v" and ios: "ints_ok_items lim (y # kvs)"
    by simp_all
  from iterencode_first [OF wf, of lvl] obtain c e where
    f: "iterencode lvl v = c # e" "\<not> is_ws c" by blast
  have d: "iterencode_dict lvl (y # kvs) = DQUOTE # tl (iterencode_dict lvl (y # kvs))"
    by (rule iterencode_dict_first) simp
  let ?s = "tl (iterencode_dict lvl (y # kvs)) @ newline_indent l2 @ CHR ''}'' # rest2"
  from "13.IH"(1) [OF wf delim_comma dv io, of "newline_indent lvl @ DQUOTE # ?s"]
  have "scan_once lim d2 (c # e @ CHR '','' # newline_indent lvl @ DQUOTE # ?s)
      = Inr (v, CHR '','' # newline_indent lvl @ DQUOTE # ?s)"
    by (simp add: f(1))
  from object_items_step [OF this f(2), of k acc2]
  have "object_items lim d2 (tl (encode_basestring k) @ '': '' @ c # e @ CHR '','' # newline_indent lvl
          @ DQUOTE # ?s) acc2
      = object_items lim d2 ?s (acc2 @ [(k, v)])" .
  also have "\<dots> = Inr (JObj (dict_update [] ((acc2 @ [(k, v)]) @ y # kvs)), rest2)"
    by (rule "13.IH"(2) [OF wfs _ dvs ios]) simp
  finally have "object_items lim d2 (tl (encode_basestring k) @ '': '' @ c # e @ CHR '','' # newline_indent lvl
          @ DQUOTE # ?s) acc2
      = Inr (JObj (dict_update [] (acc2 @ (k, v) # y # kvs)), rest2)" by simp
  moreover have "tl (iterencode_dict lvl ((k, v) # y # kvs)) @ newline_indent l2 @ CHR ''}'' # rest2
      = tl (encode_basestring k) @ '': '' @ c # e @ CHR '','' # newline_indent lvl @ DQUOTE # ?s"
  proof -
    have "iterencode_dict lvl (y # kvs) @ newline_indent l2 @ CHR ''}'' # rest2 = DQUOTE # ?s"
      by (subst d) simp
    then show ?thesis by (simp add: f(1) encode_basestring_def)
  qed
  ultimately show ?case by (simp only:)
qed

lemma loads_dumps:
  assumes wf: "wf_json v" and r: "readable lim v"
  shows "json_loads lim (json_dumps v) = Inr v"
proof -
  from iterencode_first [OF wf, of 0] obtain c r where
    f: "iterencode 0 v = c # r" "\<not> is_ws c" by blast
  have "delim []" by (simp add: delim_def)
  from r have "depth v \<le> decode_depth lim" "ints_ok lim v" by (simp_all add: readable_def)
  from decode_encode(1) [OF wf \<open>delim []\<close> this, of 0]
  have "scan_once lim (decode_depth lim) (iterencode 0 v) = Inr (v, [])" by simp
  with f show ?thesis
    by (simp add: json_loads_def json_dumps_def skip_ws_not_ws skip_ws_def)
qed

subsection \<open>The limits\<close>

lemma depth_le_length:
  "depth v \<le> length (iterencode lvl v)"
  "depth_list xs \<le> length (iterencode_list lvl xs)"
  "depth_items kvs \<le> length (iterencode_dict lvl kvs)"
  by (induction lvl v and lvl xs and lvl kvs
      rule: iterencode_iterencode_list_iterencode_dict.induct) auto

lemma ints_ok_unlimited:
  "max_str_digits lim = 0 \<Longrightarrow> ints_ok lim v"
  "max_str_digits lim = 0 \<Longrightarrow> ints_ok_list lim xs"
  "max_str_digits lim = 0 \<Longrightarrow> ints_ok_items lim kvs"
  by (induction lim v and lim xs and lim kvs rule: ints_ok_ints_ok_list_ints_ok_items.induct)
    (simp_all add: too_many_digits_def)

text \<open>Every text of the encoder is a JSON document, and it denotes the value.\<close>

lemma decode_dumps: "wf_json v \<Longrightarrow> json_decode (json_dumps v) = Some v"
proof -
  assume wf: "wf_json v"
  let ?lim = "\<lparr>decode_depth = length (json_dumps v), encode_depth = 0, max_str_digits = 0\<rparr>"
  from depth_le_length(1) [of v 0] have "depth v \<le> decode_depth ?lim"
    by (simp add: json_dumps_def)
  moreover have "ints_ok ?lim v" by (rule ints_ok_unlimited) simp
  ultimately have "readable ?lim v" by (simp add: readable_def)
  from loads_dumps [OF wf this] show ?thesis by (simp add: json_decode_def)
qed

text \<open>The encoder under the limits: it writes the text of the value when the value is
  within them, and when it ends without an exception it has written that text.\<close>

lemma then_dump_None:
  "then_dump a b = (t, None) \<longleftrightarrow> (\<exists>s u. a = (s, None) \<and> b = (u, None) \<and> t = s @ u)"
  by (cases a; cases b) (auto simp: then_dump_def split: option.splits)

lemma iterdump_complete:
  "depth v \<le> d \<Longrightarrow> ints_ok lim v \<Longrightarrow> iterdump lim d lvl v = (iterencode lvl v, None)"
  "depth_list xs \<le> d \<Longrightarrow> ints_ok_list lim xs \<Longrightarrow>
     iterdump_list lim d lvl xs = (iterencode_list lvl xs, None)"
  "depth_items kvs \<le> d \<Longrightarrow> ints_ok_items lim kvs \<Longrightarrow>
     iterdump_dict lim d lvl kvs = (iterencode_dict lvl kvs, None)"
  by (induction lim d lvl v and lim d lvl xs and lim d lvl kvs
      rule: iterdump_iterdump_list_iterdump_dict.induct)
    (auto simp: then_dump_def)

lemma iterdump_text:
  "iterdump lim d lvl v = (t, None) \<Longrightarrow> t = iterencode lvl v"
  "iterdump_list lim d lvl xs = (t, None) \<Longrightarrow> t = iterencode_list lvl xs"
  "iterdump_dict lim d lvl kvs = (t, None) \<Longrightarrow> t = iterencode_dict lvl kvs"
  by (induction lim d lvl v and lim d lvl xs and lim d lvl kvs arbitrary: t and t and t
      rule: iterdump_iterdump_list_iterdump_dict.induct)
    (auto simp: then_dump_None split: if_splits)

lemma json_dump_complete:
  "depth v \<le> encode_depth lim \<Longrightarrow> ints_ok lim v \<Longrightarrow> json_dump lim v = (json_dumps v, None)"
  by (simp add: json_dump_def json_dumps_def iterdump_complete)

lemma json_dump_text: "json_dump lim v = (t, None) \<Longrightarrow> t = json_dumps v"
  by (simp add: json_dump_def json_dumps_def iterdump_text)

section \<open>Memory and disk\<close>

lemma wf_items_iff: "wf_items kvs \<longleftrightarrow> (\<forall>(k, v) \<in> set kvs. wf_json v)"
  by (induction kvs) auto

lemma set_dict_setitem: "set (dict_setitem d k v) \<subseteq> insert (k, v) (set d)"
  by (induction d) (auto split: if_splits)

lemma wf_items_setitem: "wf_items d \<Longrightarrow> wf_json v \<Longrightarrow> wf_items (dict_setitem d k v)"
  using set_dict_setitem [of d k v] by (auto simp: wf_items_iff)

lemma wf_items_delitem: "wf_items d \<Longrightarrow> wf_items (dict_delitem d k)"
  using dict_delitem_subset [of d k] by (auto simp: wf_items_iff)

lemma wf_items_update: "wf_items d \<Longrightarrow> wf_items us \<Longrightarrow> wf_items (dict_update d us)"
proof (induction us rule: rev_induct)
  case Nil
  then show ?case by (simp add: dict_update_def)
next
  case (snoc a us)
  obtain k v where a: "a = (k, v)" by (cases a)
  from snoc.prems(2) a have "wf_items us" "wf_json v" by (auto simp: wf_items_iff)
  with snoc a show ?case by (simp add: dict_update_snoc wf_items_setitem)
qed

lemma wf_setitem:
  "wf_json (JObj d) \<Longrightarrow> wf_json v \<Longrightarrow> wf_json (JObj (dict_setitem d k v))"
  by (simp add: distinct_dict_setitem wf_items_setitem)

lemma wf_delitem: "wf_json (JObj d) \<Longrightarrow> wf_json (JObj (dict_delitem d k))"
  by (simp add: distinct_dict_delitem wf_items_delitem)

lemma wf_update:
  "wf_json (JObj d) \<Longrightarrow> wf_items us \<Longrightarrow> wf_json (JObj (dict_update d us))"
  by (simp add: distinct_dict_update wf_items_update)

lemma saved_on_disk: "saved w db \<Longrightarrow> wf_json (data db) \<Longrightarrow> on_disk w db"
  by (auto simp: saved_def on_disk_def decode_dumps)

lemma saved_load_data:
  assumes "saved w db" and "wf_json (data db)" and "readable lim (data db)"
  shows "load_data lim w None (file_path db) = (w, Inr (data db))"
  using assms loads_dumps [OF assms(2,3)]
  by (simp add: saved_def load_data_def open_read_def)

lemma save_data_saved:
  assumes "save_data lim w f db = (w', Inr ())"
  shows "saved w' db"
proof -
  from assms obtain tmp doc where d: "json_dump lim (data db) = (doc, None)"
    and v: "valid_utf8 doc"
    and w': "w' = replace_file (write_file w tmp doc) tmp (file_path db)"
    by (rule save_data_success)
  from json_dump_text [OF d] have doc: "doc = json_dumps (data db)" .
  from w' have "files w' (file_path db) = Some doc" by (simp add: files_after_save)
  with v doc show ?thesis by (simp add: saved_def)
qed

lemma set_db_saved:
  assumes "set_db lim w f db k v = (w', db', Inr ())" and "wf_json (data db)" and "wf_json v"
  shows "saved w' db' \<and> wf_json (data db') \<and> file_path db' = file_path db"
proof (cases "data db")
  case (JObj kvs)
  let ?db = "db\<lparr>data := JObj (dict_setitem kvs k v)\<rparr>"
  from assms(1) JObj have db': "db' = ?db" and s: "save_data lim w f ?db = (w', Inr ())"
    by (auto simp: set_db_def Let_def split: prod.splits)
  from assms(2,3) JObj have wf: "wf_json (data ?db)" by (simp del: wf_json.simps add: wf_setitem)
  from save_data_saved [OF s] wf db' show ?thesis by simp
qed (use assms(1) in \<open>auto simp: set_db_def\<close>)

lemma delete_saved:
  assumes "delete lim w f db k = (w', db', Inr True)" and "wf_json (data db)"
  shows "saved w' db' \<and> wf_json (data db') \<and> file_path db' = file_path db"
proof (cases "data db")
  case (JObj kvs)
  let ?db = "db\<lparr>data := JObj (dict_delitem kvs k)\<rparr>"
  from assms(1) JObj have db': "db' = ?db" and s: "save_data lim w f ?db = (w', Inr ())"
    by (auto simp: delete_def py_contains_def Let_def split: prod.splits sum.splits if_splits bool.splits)
  from assms(2) JObj have wf: "wf_json (data ?db)" by (simp del: wf_json.simps add: wf_delitem)
  from save_data_saved [OF s] wf db' show ?thesis by simp
qed (use assms(1) in \<open>auto simp: delete_def py_contains_def split: bool.splits\<close>)

lemma update_saved:
  assumes "update lim w f db us = (w', db', Inr ())" and "wf_json (data db)" and "wf_items us"
  shows "saved w' db' \<and> wf_json (data db') \<and> file_path db' = file_path db"
proof (cases "data db")
  case (JObj kvs)
  let ?db = "db\<lparr>data := JObj (dict_update kvs us)\<rparr>"
  from assms(1) JObj have db': "db' = ?db" and s: "save_data lim w f ?db = (w', Inr ())"
    by (auto simp: update_def Let_def split: prod.splits)
  from assms(2,3) JObj have wf: "wf_json (data ?db)" by (simp del: wf_json.simps add: wf_update)
  from save_data_saved [OF s] wf db' show ?thesis by simp
qed (use assms(1) in \<open>auto simp: update_def\<close>)

lemma clear_saved:
  assumes "clear lim w f db = (w', db', Inr ())"
  shows "saved w' db' \<and> wf_json (data db') \<and> file_path db' = file_path db"
proof -
  from assms obtain e where e: "e = JObj [] \<or> e = JArr []"
    and db': "db' = db\<lparr>data := e\<rparr>" and s: "save_data lim w f (db\<lparr>data := e\<rparr>) = (w', Inr ())"
    by (cases "data db") (auto simp: clear_def Let_def split: prod.splits)
  from e have wf: "wf_json (data (db\<lparr>data := e\<rparr>))" by auto
  from save_data_saved [OF s] wf db' show ?thesis by simp
qed

text \<open>What a successful call leaves: the file holds a JSON document that denotes the
  store's data, and every interpreter whose limits the data is within loads it.\<close>

lemma saved_facts:
  assumes "saved w db" and "wf_json (data db)"
  shows "on_disk w db \<and> (\<forall>lim. readable lim (data db) \<longrightarrow>
    load_data lim w None (file_path db) = (w, Inr (data db)))"
  using saved_on_disk [OF assms] saved_load_data [OF assms] by blast

section \<open>Restart\<close>

lemma in_sync_init:
  assumes "in_sync w db" and "wf_json (data db)" and "readable lim (data db)"
  shows "init lim w None None (file_path db) =
    (w\<lparr>log := log w @ [MakeDirs (path_parent (file_path db))]\<rparr>,
     Inr \<lparr>file_path = file_path db, data = data db\<rparr>)"
proof (cases "saved w db")
  case True
  let ?w = "w\<lparr>log := log w @ [MakeDirs (path_parent (file_path db))]\<rparr>"
  from True have "saved ?w db" by (simp add: saved_def)
  from saved_load_data [OF this assms(2,3)] show ?thesis
    by (simp add: init_no_mkdir_fault)
next
  case False
  with assms(1) have "files w (file_path db) = None" "data db = JObj []"
    by (simp_all add: in_sync_def)
  then show ?thesis
    by (simp add: init_no_mkdir_fault load_data_def open_read_def)
qed

lemma set_all_in_sync:
  assumes "set_all w db cs = (w1, db1, Inr ())" and "in_sync w db" and "wf_json (data db)"
    and "\<forall>(k, v, f, lim) \<in> set cs. wf_json v"
  shows "in_sync w1 db1 \<and> wf_json (data db1) \<and> file_path db1 = file_path db"
  using assms
proof (induction cs arbitrary: w db)
  case Nil
  then show ?case by simp
next
  case (Cons c cs)
  obtain k v f lim where c: "c = (k, v, f, lim)" by (cases c)
  obtain w' db' r where s: "set_db lim w f db k v = (w', db', r)" by (metis prod_cases3)
  from Cons.prems(1) c s have r: "r = Inr ()" and rest: "set_all w' db' cs = (w1, db1, Inr ())"
    by (auto split: sum.splits)
  from Cons.prems(4) c have wfv: "wf_json v" and wfs: "\<forall>(k, v, f, lim) \<in> set cs. wf_json v"
    by auto
  from set_db_saved [OF s [unfolded r] Cons.prems(3) wfv]
  have od: "saved w' db'" and wf': "wf_json (data db')" and p: "file_path db' = file_path db"
    by simp_all
  from od have "in_sync w' db'" by (simp add: in_sync_def)
  from Cons.IH [OF rest this wf' wfs] p show ?case by simp
qed

section \<open>Texts that nest too deep\<close>

text \<open>
  The decoder raises \<^verbatim>\<open>RecursionError\<close> at the first bracket beyond its depth, whatever
  follows, be the text a JSON document or not; and the encoder, which has more depth
  than the decoder, writes values that the decoder then cannot read.
\<close>

lemma ascii_valid_utf8: "\<forall>c \<in> set s. (of_char c :: nat) < 0x80 \<Longrightarrow> valid_utf8 s"
  unfolding valid_utf8_def by (induction s) (simp_all add: Let_def)

lemma deep_facts: "depth (deep n) = Suc n" "wf_json (deep n)" "ints_ok lim (deep n)"
  by (induction n) simp_all

lemma deep_ascii: "\<forall>c \<in> set (iterencode lvl (deep n)). (of_char c :: nat) < 0x80"
  by (induction n arbitrary: lvl) (auto simp: newline_indent_def)

lemma deep_first: "\<exists>r. iterencode lvl (deep n) = CHR ''['' # r"
  by (cases n) simp_all

lemma deep_too_deep:
  "d \<le> n \<Longrightarrow> scan_once lim d (iterencode lvl (deep n) @ rest) = Inl RecursionError"
proof (induction n arbitrary: d lvl rest)
  case 0
  then show ?case by (simp add: scan_once_array)
next
  case (Suc n)
  from deep_first [of "Suc lvl" n] obtain r where r: "iterencode (Suc lvl) (deep n) = CHR ''['' # r"
    by blast
  show ?case
  proof (cases "d = 0")
    case True
    then show ?thesis by (simp add: scan_once_array)
  next
    case False
    with Suc.prems have "d - 1 \<le> n" by simp
    from Suc.IH [OF this, of "Suc lvl" "newline_indent lvl @ CHR '']'' # rest"]
    have "scan_once lim (d - 1) (CHR ''['' # r @ newline_indent lvl @ CHR '']'' # rest)
        = Inl RecursionError"
      by (simp add: r)
    from array_items_error [OF this, of "[]"] False show ?thesis
      by (simp add: r scan_once_array skip_ws_newline_indent skip_ws_not_ws not_ws_special)
  qed
qed

lemma object_items_error:
  assumes "scan_once lim d (c # e) = Inl x" and "\<not> is_ws c"
  shows "object_items lim d (tl (encode_basestring k) @ '': '' @ c # e) acc = Inl x"
  using assms
  by (subst object_items.simps)
    (simp add: scanstring_basestring skip_ws_not_ws not_ws_special skip_ws_space)

lemma deep_not_read:
  assumes "decode_depth lim \<le> Suc n"
  shows "json_loads lim (json_dumps (JObj [(k, deep n)])) = Inl RecursionError"
proof (cases "decode_depth lim = 0")
  case True
  then show ?thesis
    by (simp add: json_loads_def json_dumps_def skip_ws_not_ws not_ws_special scan_once_object)
next
  case False
  with assms have le: "decode_depth lim - 1 \<le> n" by simp
  from deep_first [of "Suc 0" n] obtain r where r: "iterencode (Suc 0) (deep n) = CHR ''['' # r"
    by blast
  from deep_too_deep [OF le, of lim "Suc 0" "newline_indent 0 @ ''}''"]
  have "scan_once lim (decode_depth lim - 1) (CHR ''['' # r @ newline_indent 0 @ ''}'')
      = Inl RecursionError"
    by (simp add: r)
  from object_items_error [OF this, of k "[]"]
  have "object_items lim (decode_depth lim - 1)
      (tl (encode_basestring k) @ '': '' @ CHR ''['' # r @ newline_indent 0 @ ''}'') []
      = Inl RecursionError"
    by (simp add: not_ws_special)
  with False show ?thesis
    by (simp add: json_loads_def json_dumps_def skip_ws_not_ws not_ws_special scan_once_object
        skip_ws_newline_indent r encode_basestring_def)
qed

lemma deep_written:
  assumes "n + 2 \<le> encode_depth lim"
  shows "json_dump lim (JObj [(k, deep n)]) = (json_dumps (JObj [(k, deep n)]), None)"
    and "valid_utf8 (json_dumps (JObj [(''k'', deep n)]))"
proof -
  from assms(1) show "json_dump lim (JObj [(k, deep n)]) = (json_dumps (JObj [(k, deep n)]), None)"
    by (intro json_dump_complete) (simp_all add: deep_facts)
  have e: "encode_basestring ''k'' = [DQUOTE, CHR ''k'', DQUOTE]"
    by (simp add: encode_basestring_def escape_char_def)
  from deep_ascii [of "Suc 0" n]
  have "\<forall>c \<in> set (json_dumps (JObj [(''k'', deep n)])). (of_char c :: nat) < 0x80"
    by (simp add: json_dumps_def newline_indent_def e)
  then show "valid_utf8 (json_dumps (JObj [(''k'', deep n)]))" by (rule ascii_valid_utf8)
qed

lemma brackets_too_deep:
  "d < n \<Longrightarrow> scan_once lim d (replicate n (CHR ''['') @ s) = Inl RecursionError"
proof (induction d arbitrary: n)
  case 0
  then obtain m where "n = Suc m" by (cases n) simp_all
  then show ?case by (simp add: scan_once_array)
next
  case (Suc d)
  then obtain m where n: "n = Suc (Suc m)" and l: "d < Suc m"
    by (cases n; cases "n - 1") simp_all
  from Suc.IH [OF l] have "scan_once lim d (CHR ''['' # replicate m (CHR ''['') @ s)
      = Inl RecursionError" by simp
  from array_items_error [OF this, of "[]"] show ?case
    by (simp add: n scan_once_array skip_ws_not_ws not_ws_special)
qed

lemma length_brackets: "length (brackets n) = 2 * n"
  by (simp add: brackets_def)

lemma brackets_read:
  "n < d \<Longrightarrow> scan_once lim d (brackets (Suc n) @ rest) = Inr (deep n, rest)"
proof (induction n arbitrary: d rest)
  case 0
  then show ?case
    by (simp add: brackets_def scan_once_array skip_ws_not_ws not_ws_special)
next
  case (Suc n)
  then have l: "n < d - 1" and d: "d \<noteq> 0" by simp_all
  let ?inner = "brackets (Suc n) @ CHR '']'' # rest"
  have b: "brackets (Suc (Suc n)) @ rest = CHR ''['' # brackets (Suc n) @ CHR '']'' # rest"
    by (simp add: brackets_def replicate_append_same)
  have h: "?inner = CHR ''['' # tl ?inner" by (simp add: brackets_def)
  from Suc.IH [OF l, of "CHR '']'' # rest"]
  have "scan_once lim (d - 1) ?inner = Inr (deep n, CHR '']'' # rest)" .
  then have so: "scan_once lim (d - Suc 0) ?inner = Inr (deep n, CHR '']'' # rest)" by simp
  have "array_items lim (d - 1) ?inner [] = Inr (JArr [deep n], rest)"
    by (subst array_items.simps)
      (simp add: so skip_ws_not_ws not_ws_special length_brackets)
  then have "array_items lim (d - 1) (CHR ''['' # tl ?inner) [] = Inr (JArr [deep n], rest)"
    using h by simp
  with d show ?case
    by (simp only: b scan_once_array)
      (simp add: skip_ws_not_ws not_ws_special brackets_def)
qed

lemma brackets_document:
  "json_decode (brackets (Suc n)) = Some (deep n)" "valid_utf8 (brackets n)"
proof -
  have "n < length (brackets (Suc n))" by (simp add: brackets_def)
  from brackets_read [OF this, of _ "[]"] show "json_decode (brackets (Suc n)) = Some (deep n)"
    by (simp add: json_decode_def json_loads_def skip_ws_not_ws not_ws_special brackets_def
        skip_ws_def)
  show "valid_utf8 (brackets n)"
    by (rule ascii_valid_utf8) (auto simp: brackets_def)
qed

lemma brackets_not_read:
  "decode_depth lim < n \<Longrightarrow> json_loads lim (replicate n (CHR ''['') @ s) = Inl RecursionError"
proof -
  assume l: "decode_depth lim < n"
  then obtain m where n: "n = Suc m" by (cases n) simp_all
  from brackets_too_deep [OF l, of lim s] show ?thesis
    by (simp add: json_loads_def n skip_ws_not_ws not_ws_special)
qed



section \<open>The decoder shortens the text\<close>

text \<open>
  Whenever the decoder reads a value, the text that follows is shorter than the text
  it started from: the tests on the lengths in \<open>array_items\<close> and \<open>object_items\<close>
  never fail.
\<close>

lemma frac_stage_shorter:
  assumes "(case s2 of
       p # r2 \<Rightarrow>
         if p = CHR ''.'' \<and> takeWhile is_digit r2 \<noteq> []
         then (p # takeWhile is_digit r2, dropWhile is_digit r2)
         else ([], s2)
     | [] \<Rightarrow> ([], s2)) = (fr, s3)"
  shows "length s3 \<le> length s2"
proof (cases s2)
  case Nil
  with assms show ?thesis by simp
next
  case (Cons p r2)
  have "length (dropWhile is_digit r2) \<le> length r2" by (rule length_dropWhile_le)
  with assms Cons show ?thesis by (auto split: if_splits)
qed

lemma exp_stage_shorter:
  assumes "(case s3 of
       e # r3 \<Rightarrow>
         if e = CHR ''e'' \<or> e = CHR ''E'' then
           (case (case r3 of
                     g # r5 \<Rightarrow> if g = CHR ''-'' \<or> g = CHR ''+'' then ([g], r5) else ([], r3)
                   | [] \<Rightarrow> ([], r3)) of
              (sg, r4) \<Rightarrow>
                if takeWhile is_digit r4 \<noteq> []
                then (e # sg @ takeWhile is_digit r4, dropWhile is_digit r4)
                else ([], s3))
         else ([], s3)
     | [] \<Rightarrow> ([], s3)) = (ex, s4)"
  shows "length s4 \<le> length s3"
proof (cases s3)
  case Nil
  with assms show ?thesis by simp
next
  case (Cons e r3)
  show ?thesis
  proof (cases r3)
    case Nil
    with assms Cons show ?thesis by (auto split: if_splits)
  next
    case (Cons g r5)
    have "length (dropWhile is_digit r5) \<le> length r5" "length (dropWhile is_digit r3) \<le> length r3"
      by (rule length_dropWhile_le)+
    with assms \<open>s3 = e # r3\<close> Cons show ?thesis
      by (auto simp: Let_def split: if_splits)
  qed
qed

lemma match_number_shorter:
  assumes "match_number s = Some (i, fr, ex, r)"
  shows "length r < length s"
proof -
  obtain sign s1 where sg: "(case s of c # r \<Rightarrow> if c = CHR ''-'' then ([c], r) else ([], s)
      | [] \<Rightarrow> ([], s)) = (sign, s1)"
    by (rule prod.exhaust)
  then have l1: "length s1 \<le> length s" by (auto split: list.splits if_splits)
  from assms sg obtain d r0 where s1: "s1 = d # r0" and dig: "is_digit d"
    by (cases s1) (auto simp: match_number_def Let_def split: if_splits)
  obtain ipart s2 where ip: "(if d = CHR ''0'' then ([d], r0)
      else (d # takeWhile is_digit r0, dropWhile is_digit r0)) = (ipart, s2)"
    by (rule prod.exhaust)
  have "length (dropWhile is_digit r0) \<le> length r0" by (rule length_dropWhile_le)
  with ip have l2: "length s2 \<le> length r0" by (auto split: if_splits)
  obtain fr' s3 where f: "(case s2 of
       p # r2 \<Rightarrow>
         if p = CHR ''.'' \<and> takeWhile is_digit r2 \<noteq> []
         then (p # takeWhile is_digit r2, dropWhile is_digit r2)
         else ([], s2)
     | [] \<Rightarrow> ([], s2)) = (fr', s3)"
    by (rule prod.exhaust)
  note l3 = frac_stage_shorter [OF f]
  from assms have "(case s3 of
       e # r3 \<Rightarrow>
         if e = CHR ''e'' \<or> e = CHR ''E'' then
           (case (case r3 of
                     g # r5 \<Rightarrow> if g = CHR ''-'' \<or> g = CHR ''+'' then ([g], r5) else ([], r3)
                   | [] \<Rightarrow> ([], r3)) of
              (sg, r4) \<Rightarrow>
                if takeWhile is_digit r4 \<noteq> []
                then (e # sg @ takeWhile is_digit r4, dropWhile is_digit r4)
                else ([], s3))
         else ([], s3)
     | [] \<Rightarrow> ([], s3)) = (ex, r)"
    unfolding match_number_def sg Let_def prod.case s1 list.case using dig
    by (simp add: ip f)
  note l4 = exp_stage_shorter [OF this]
  from l1 l2 l3 l4 s1 show ?thesis by simp
qed

lemma take_eq_length: "take n s = lit \<Longrightarrow> length lit = n \<Longrightarrow> n \<le> length s"
proof -
  assume a: "take n s = lit" "length lit = n"
  have "length (take n s) = min n (length s)" by simp
  with a have "n = min n (length s)" by simp
  then show "n \<le> length s" by (simp add: min_def split: if_splits)
qed

lemma drop_literal_shorter:
  assumes "take n s = lit" and "length lit = n" and "0 < n"
  shows "length (drop n s) < length s"
  using take_eq_length [OF assms(1,2)] assms(3) by simp

lemma scan_atom_shorter:
  assumes "scan_atom lim s = Inr (v, r)"
  shows "length r < length s"
proof (cases "take 4 s = ''null''")
  case True
  with assms have "r = drop 4 s" by (simp add: scan_atom_def)
  with drop_literal_shorter [OF True] show ?thesis by simp
next
  case n1: False
  show ?thesis
  proof (cases "take 4 s = ''true''")
    case True
    with n1 assms have "r = drop 4 s" by (simp add: scan_atom_def)
    with drop_literal_shorter [OF True] show ?thesis by simp
  next
    case n2: False
    show ?thesis
    proof (cases "take 5 s = ''false''")
      case True
      with n1 n2 assms have "r = drop 5 s" by (simp add: scan_atom_def)
      with drop_literal_shorter [OF True] show ?thesis by simp
    next
      case n3: False
      show ?thesis
      proof (cases "match_number s")
        case (Some m)
        obtain i fr ex r' where m: "m = (i, fr, ex, r')" by (cases m)
        with Some n1 n2 n3 assms have "r = r'"
          by (simp add: scan_atom_def split: if_splits)
        with match_number_shorter [of s i fr ex r'] Some m show ?thesis by simp
      next
        case None
        show ?thesis
        proof (cases "take 3 s = ''NaN''")
          case True
          with None n1 n2 n3 assms have "r = drop 3 s" by (simp add: scan_atom_def)
          with drop_literal_shorter [OF True] show ?thesis by simp
        next
          case n4: False
          show ?thesis
          proof (cases "take 8 s = ''Infinity''")
            case True
            with None n1 n2 n3 n4 assms have "r = drop 8 s" by (simp add: scan_atom_def)
            with drop_literal_shorter [OF True] show ?thesis by simp
          next
            case n5: False
            with None n1 n2 n3 n4 assms have t: "take 9 s = ''-Infinity''" and "r = drop 9 s"
              by (simp_all add: scan_atom_def split: if_splits)
            with drop_literal_shorter [OF t] show ?thesis by simp
          qed
        qed
      qed
    qed
  qed
qed

lemma array_items_unfold:
  "array_items lim d s acc = Inr (v1, r1) \<Longrightarrow>
     \<exists>v r n r2. scan_once lim d s = Inr (v, r) \<and> length r < length s \<and> skip_ws r = n # r2
       \<and> ((n = CHR '']'' \<and> r1 = r2)
          \<or> (n \<noteq> CHR '']'' \<and> n = CHR '','' \<and>
              array_items lim d (skip_ws r2) (acc @ [v]) = Inr (v1, r1)))"
  by (subst (asm) array_items.simps)
    (auto split: sum.splits prod.splits if_splits list.splits)

lemma object_items_unfold:
  "object_items lim d s acc = Inr (v2, r2) \<Longrightarrow>
     \<exists>key q1 n1 q2 v q3 n2 q4.
       scanstring s = Some (key, q1) \<and> skip_ws q1 = n1 # q2 \<and> n1 = CHR '':''
       \<and> scan_once lim d (skip_ws q2) = Inr (v, q3) \<and> length q3 < length (skip_ws q2)
       \<and> skip_ws q3 = n2 # q4
       \<and> ((n2 = CHR ''}'' \<and> r2 = q4)
          \<or> (n2 \<noteq> CHR ''}'' \<and> n2 = CHR '','' \<and>
              (\<exists>q5. skip_ws q4 = DQUOTE # q5 \<and>
                 object_items lim d q5 (acc @ [(key, v)]) = Inr (v2, r2))))"
  by (subst (asm) object_items.simps)
    (auto split: sum.splits option.splits prod.splits if_splits list.splits)

lemma scan_shorter:
  "scan_once lim d s = Inr (v, r) \<Longrightarrow> length r < length s"
  "array_items lim d1 s1 acc = Inr (v1, r1) \<Longrightarrow> length r1 < length s1"
  "object_items lim d2 s2 acc2 = Inr (v2, r2) \<Longrightarrow> length r2 < length s2"
proof (induction lim d s and lim d1 s1 acc and lim d2 s2 acc2 arbitrary: v r and v1 r1 and v2 r2
    rule: scan_once_array_items_object_items.induct)
  case (1 lim d s)
  from "1.prems" obtain c cs where s: "s = c # cs"
    by (cases s) (simp_all add: scan_once.simps)
  show ?case
  proof (cases "c = DQUOTE")
    case True
    with "1.prems" s obtain x where "scanstring cs = Some (x, r)"
      by (auto simp: scan_once_string split: option.splits)
    from scanstring_shorter [OF this] s show ?thesis by simp
  next
    case nq: False
    show ?thesis
    proof (cases "c = CHR ''{''")
      case True
      with "1.prems" s obtain n r0 where dz: "d \<noteq> 0" and sk: "skip_ws cs = n # r0"
        and alt: "(n = CHR ''}'' \<and> r = r0)
          \<or> (n \<noteq> CHR ''}'' \<and> n = DQUOTE \<and> object_items lim (d - 1) r0 [] = Inr (v, r))"
        by (auto simp: scan_once_object split: list.splits if_splits)
      from skip_ws_Cons_shorter [OF sk] have l: "length r0 < length cs" .
      from alt show ?thesis
      proof
        assume "n = CHR ''}'' \<and> r = r0"
        with l s show ?thesis by simp
      next
        assume a: "n \<noteq> CHR ''}'' \<and> n = DQUOTE \<and> object_items lim (d - 1) r0 [] = Inr (v, r)"
        with "1.IH"(1) [OF s nq True dz sk] have "length r < length r0" by blast
        with l s show ?thesis by simp
      qed
    next
      case no: False
      show ?thesis
      proof (cases "c = CHR ''[''")
        case True
        with "1.prems" s obtain n r0 where dz: "d \<noteq> 0" and sk: "skip_ws cs = n # r0"
          and alt: "(n = CHR '']'' \<and> r = r0)
            \<or> (n \<noteq> CHR '']'' \<and> array_items lim (d - 1) (n # r0) [] = Inr (v, r))"
          by (auto simp: scan_once_array split: list.splits if_splits)
        from skip_ws_Cons_shorter [OF sk] have l: "length r0 < length cs" .
        from alt show ?thesis
        proof
          assume "n = CHR '']'' \<and> r = r0"
          with l s show ?thesis by simp
        next
          assume a: "n \<noteq> CHR '']'' \<and> array_items lim (d - 1) (n # r0) [] = Inr (v, r)"
          with "1.IH"(2) [OF s nq no True dz sk] have "length r < length (n # r0)" by blast
          with l s show ?thesis by simp
        qed
      next
        case False
        with nq no "1.prems" s have "scan_atom lim s = Inr (v, r)"
          by (simp add: scan_once_atom)
        then show ?thesis by (rule scan_atom_shorter)
      qed
    qed
  qed
next
  case (2 lim d s acc)
  from array_items_unfold [OF "2.prems"] obtain v r n q2 where
    so: "scan_once lim d s = Inr (v, r)" and l: "length r < length s" and sk: "skip_ws r = n # q2"
    and alt: "(n = CHR '']'' \<and> r1 = q2)
          \<or> (n \<noteq> CHR '']'' \<and> n = CHR '','' \<and>
              array_items lim d (skip_ws q2) (acc @ [v]) = Inr (v1, r1))"
    by blast
  from skip_ws_Cons_shorter [OF sk] have l2: "length q2 < length r" .
  from alt show ?case
  proof
    assume "n = CHR '']'' \<and> r1 = q2"
    with l l2 show ?thesis by simp
  next
    assume a: "n \<noteq> CHR '']'' \<and> n = CHR '','' \<and>
      array_items lim d (skip_ws q2) (acc @ [v]) = Inr (v1, r1)"
    with "2.IH"(2) [OF so refl l sk] have "length r1 < length (skip_ws q2)" by blast
    with skip_ws_length [of q2] l l2 show ?thesis by simp
  qed
next
  case (3 lim d s acc)
  from object_items_unfold [OF "3.prems"] obtain key q1 n1 q2 v q3 n2 q4 where
    ss: "scanstring s = Some (key, q1)" and sk1: "skip_ws q1 = n1 # q2" and n1: "n1 = CHR '':''"
    and so: "scan_once lim d (skip_ws q2) = Inr (v, q3)" and l3: "length q3 < length (skip_ws q2)"
    and sk3: "skip_ws q3 = n2 # q4"
    and alt: "(n2 = CHR ''}'' \<and> r2 = q4)
          \<or> (n2 \<noteq> CHR ''}'' \<and> n2 = CHR '','' \<and>
              (\<exists>q5. skip_ws q4 = DQUOTE # q5 \<and>
                 object_items lim d q5 (acc @ [(key, v)]) = Inr (v2, r2)))"
    by blast
  from scanstring_shorter [OF ss] skip_ws_Cons_shorter [OF sk1] skip_ws_length [of q2] l3
    skip_ws_Cons_shorter [OF sk3]
  have l4: "length q4 < length s" by simp
  from alt show ?case
  proof
    assume "n2 = CHR ''}'' \<and> r2 = q4"
    with l4 show ?thesis by simp
  next
    assume "n2 \<noteq> CHR ''}'' \<and> n2 = CHR '','' \<and>
              (\<exists>q5. skip_ws q4 = DQUOTE # q5 \<and>
                 object_items lim d q5 (acc @ [(key, v)]) = Inr (v2, r2))"
    then obtain q5 where c: "n2 \<noteq> CHR ''}''" "n2 = CHR '',''" and sk5: "skip_ws q4 = DQUOTE # q5"
      and oi: "object_items lim d q5 (acc @ [(key, v)]) = Inr (v2, r2)" by blast
    from "3.IH"(2) [OF ss refl sk1 n1 so refl l3 sk3 c sk5 refl oi]
    have "length r2 < length q5" .
    with skip_ws_Cons_shorter [OF sk5] l4 show ?thesis by simp
  qed
qed

section \<open>The decoder without limits\<close>

text \<open>
  With as much depth as the text has characters and no limit on the digits, the decoder
  raises nothing but \<^verbatim>\<open>JSONDecodeError\<close>: a text that \<open>json_decode\<close> does not read is
  not a JSON document.
\<close>

lemma scan_atom_unlimited:
  "max_str_digits lim = 0 \<Longrightarrow> scan_atom lim s = Inl e \<Longrightarrow> e = JSONDecodeError"
  by (auto simp: scan_atom_def too_many_digits_def split: if_splits option.splits prod.splits)

lemma array_items_unfold_error:
  "array_items lim d s acc = Inl e \<Longrightarrow>
     e = JSONDecodeError \<or> scan_once lim d s = Inl e
     \<or> (\<exists>v r n r2. scan_once lim d s = Inr (v, r) \<and> length r < length s \<and> skip_ws r = n # r2
           \<and> n \<noteq> CHR '']'' \<and> n = CHR '','' \<and>
           array_items lim d (skip_ws r2) (acc @ [v]) = Inl e)"
  by (subst (asm) array_items.simps)
    (auto split: sum.splits prod.splits if_splits list.splits)

lemma object_items_unfold_error:
  "object_items lim d s acc = Inl e \<Longrightarrow>
     e = JSONDecodeError
     \<or> (\<exists>key q1 n1 q2. scanstring s = Some (key, q1) \<and> skip_ws q1 = n1 # q2 \<and> n1 = CHR '':''
           \<and> (scan_once lim d (skip_ws q2) = Inl e
              \<or> (\<exists>v q3 n2 q4 q5. scan_once lim d (skip_ws q2) = Inr (v, q3)
                    \<and> length q3 < length (skip_ws q2) \<and> skip_ws q3 = n2 # q4
                    \<and> n2 \<noteq> CHR ''}'' \<and> n2 = CHR '','' \<and> skip_ws q4 = DQUOTE # q5
                    \<and> object_items lim d q5 (acc @ [(key, v)]) = Inl e)))"
  by (subst (asm) object_items.simps)
    (auto split: sum.splits option.splits prod.splits if_splits list.splits)

lemma ideal_decoder:
  "max_str_digits lim = 0 \<Longrightarrow> length s \<le> d \<Longrightarrow> scan_once lim d s = Inl e
     \<Longrightarrow> e = JSONDecodeError"
  "max_str_digits lim = 0 \<Longrightarrow> length s1 \<le> d1 \<Longrightarrow> array_items lim d1 s1 acc = Inl e1
     \<Longrightarrow> e1 = JSONDecodeError"
  "max_str_digits lim = 0 \<Longrightarrow> length s2 \<le> d2 \<Longrightarrow> object_items lim d2 s2 acc2 = Inl e2
     \<Longrightarrow> e2 = JSONDecodeError"
proof (induction lim d s and lim d1 s1 acc and lim d2 s2 acc2 arbitrary: e and e1 and e2
    rule: scan_once_array_items_object_items.induct)
  case (1 lim d s)
  show ?case
  proof (cases s)
    case Nil
    with "1.prems" show ?thesis by (simp add: scan_once.simps)
  next
    case s: (Cons c cs)
    with "1.prems"(2) have dz: "d \<noteq> 0" and lc: "length cs \<le> d - 1" by simp_all
    show ?thesis
    proof (cases "c = DQUOTE")
      case True
      with "1.prems" s show ?thesis
        by (auto simp: scan_once_string split: option.splits)
    next
      case nq: False
      show ?thesis
      proof (cases "c = CHR ''{''")
        case True
        show ?thesis
        proof (cases "skip_ws cs")
          case Nil
          with "1.prems" s True dz show ?thesis by (simp add: scan_once_object)
        next
          case sk: (Cons n r0)
          from skip_ws_Cons_shorter [OF sk] lc have l: "length r0 \<le> d - 1" by simp
          from "1.prems"(3) s True dz sk
          have "e = JSONDecodeError
            \<or> (n \<noteq> CHR ''}'' \<and> n = DQUOTE \<and> object_items lim (d - 1) r0 [] = Inl e)"
            by (auto simp: scan_once_object split: if_splits)
          with "1.IH"(1) [OF s nq True dz sk] "1.prems"(1) l show ?thesis by blast
        qed
      next
        case no: False
        show ?thesis
        proof (cases "c = CHR ''[''")
          case True
          show ?thesis
          proof (cases "skip_ws cs")
            case Nil
            with "1.prems" s True dz show ?thesis by (simp add: scan_once_array)
          next
            case sk: (Cons n r0)
            from skip_ws_length [of cs] sk lc have l: "length (n # r0) \<le> d - 1" by simp
            from "1.prems"(3) s True dz sk
            have "n \<noteq> CHR '']'' \<and> array_items lim (d - 1) (n # r0) [] = Inl e"
              by (auto simp: scan_once_array split: if_splits)
            with "1.IH"(2) [OF s nq no True dz sk] "1.prems"(1) l show ?thesis by blast
          qed
        next
          case False
          with nq no "1.prems"(3) s have "scan_atom lim s = Inl e"
            by (simp add: scan_once_atom)
          with "1.prems"(1) show ?thesis by (rule scan_atom_unlimited)
        qed
      qed
    qed
  qed
next
  case (2 lim d s acc)
  from array_items_unfold_error [OF "2.prems"(3)]
  consider "e1 = JSONDecodeError" | "scan_once lim d s = Inl e1"
    | v r n r2 where "scan_once lim d s = Inr (v, r)" "length r < length s" "skip_ws r = n # r2"
        "n \<noteq> CHR '']''" "n = CHR '',''" "array_items lim d (skip_ws r2) (acc @ [v]) = Inl e1"
    by blast
  then show ?case
  proof cases
    case 1
    then show ?thesis .
  next
    case 2
    from "2.IH"(1) [OF "2.prems"(1,2) this] show ?thesis .
  next
    case (3 v r n r2)
    from skip_ws_Cons_shorter [OF 3(3)] skip_ws_length [of r2] 3(2) "2.prems"(2)
    have "length (skip_ws r2) \<le> d" by simp
    from "2.IH"(2) [OF 3(1) refl 3(2,3,4,5) "2.prems"(1) this 3(6)] show ?thesis .
  qed
next
  case (3 lim d s acc)
  from object_items_unfold_error [OF "3.prems"(3)]
  consider "e2 = JSONDecodeError"
    | key q1 n1 q2 where "scanstring s = Some (key, q1)" "skip_ws q1 = n1 # q2" "n1 = CHR '':''"
        "scan_once lim d (skip_ws q2) = Inl e2"
    | key q1 n1 q2 v q3 n2 q4 q5 where "scanstring s = Some (key, q1)" "skip_ws q1 = n1 # q2"
        "n1 = CHR '':''" "scan_once lim d (skip_ws q2) = Inr (v, q3)"
        "length q3 < length (skip_ws q2)" "skip_ws q3 = n2 # q4" "n2 \<noteq> CHR ''}''"
        "n2 = CHR '',''" "skip_ws q4 = DQUOTE # q5"
        "object_items lim d q5 (acc @ [(key, v)]) = Inl e2"
    by blast
  then show ?case
  proof cases
    case 1
    then show ?thesis .
  next
    case (2 key q1 n1 q2)
    from scanstring_shorter [OF 2(1)] skip_ws_Cons_shorter [OF 2(2)] skip_ws_length [of q2]
      "3.prems"(2)
    have "length (skip_ws q2) \<le> d" by simp
    from "3.IH"(1) [OF 2(1) refl 2(2,3) "3.prems"(1) this 2(4)] show ?thesis .
  next
    case (3 key q1 n1 q2 v q3 n2 q4 q5)
    from scanstring_shorter [OF 3(1)] skip_ws_Cons_shorter [OF 3(2)] skip_ws_length [of q2]
      3(5) skip_ws_Cons_shorter [OF 3(6)] skip_ws_Cons_shorter [OF 3(9)] "3.prems"(2)
    have "length q5 \<le> d" by simp
    from "3.IH"(2) [OF 3(1) refl 3(2,3,4) refl 3(5,6,7,8,9) refl "3.prems"(1) this 3(10)]
    show ?thesis .
  qed
qed

lemma json_decode_None:
  "json_decode s = None \<longleftrightarrow>
     json_loads \<lparr>decode_depth = length s, encode_depth = 0, max_str_digits = 0\<rparr> s
       = Inl JSONDecodeError"
proof -
  let ?lim = "\<lparr>decode_depth = length s, encode_depth = 0, max_str_digits = 0\<rparr>"
  have "e = JSONDecodeError" if "json_loads ?lim s = Inl e" for e
  proof (cases "scan_once ?lim (length s) (skip_ws s)")
    case (Inl x)
    have "length (skip_ws s) \<le> length s" by (rule skip_ws_length)
    from ideal_decoder(1) [OF _ this Inl] have "x = JSONDecodeError" by simp
    with that Inl show ?thesis by (simp add: json_loads_def)
  next
    case (Inr y)
    with that show ?thesis by (auto simp: json_loads_def split: prod.splits if_splits)
  qed
  then show ?thesis by (auto simp: json_decode_def split: sum.splits)
qed

section \<open>What the encoder accepts\<close>

lemma iterdump_within:
  "iterdump lim d lvl v = (t, None) \<Longrightarrow> depth v \<le> d \<and> ints_ok lim v"
  "iterdump_list lim d lvl xs = (t, None) \<Longrightarrow> depth_list xs \<le> d \<and> ints_ok_list lim xs"
  "iterdump_dict lim d lvl kvs = (t, None) \<Longrightarrow> depth_items kvs \<le> d \<and> ints_ok_items lim kvs"
  by (induction lim d lvl v and lim d lvl xs and lim d lvl kvs arbitrary: t and t and t
      rule: iterdump_iterdump_list_iterdump_dict.induct)
    (auto simp: then_dump_None split: if_splits)

text \<open>A save succeeds only for data within the limits of the encoder; an interpreter
  whose decoder has these limits too reads the file back.\<close>

lemma saved_data_within:
  assumes "save_data lim w f db = (w', Inr ())"
  shows "depth (data db) \<le> encode_depth lim \<and> ints_ok lim (data db)"
proof -
  from assms obtain tmp doc where "json_dump lim (data db) = (doc, None)"
    by (rule save_data_success)
  then show ?thesis using iterdump_within(1) by (simp add: json_dump_def)
qed

section \<open>Integers of too many digits\<close>

text \<open>The decoder raises \<^verbatim>\<open>ValueError\<close> on an integer that has more digits than the
  interpreter converts, in a text that is a JSON document.\<close>

lemma scan_atom_ones:
  "scan_atom lim (CHR ''1'' # replicate m (CHR ''1'') @ '']'') =
     (if too_many_digits lim (Suc m) then Inl ValueError
      else Inr (JInt (parse_int (CHR ''1'' # replicate m (CHR ''1''))), '']''))"
proof -
  have d: "is_digit (CHR ''1'')" by (simp add: is_digit_def)
  then have ds: "\<forall>c \<in> set (replicate m (CHR ''1'')). is_digit c" by simp
  have e: "num_end '']''" by (simp add: num_end_def is_digit_def)
  have m: "match_number (CHR ''1'' # replicate m (CHR ''1'') @ '']'')
      = Some (CHR ''1'' # replicate m (CHR ''1''), [], [], '']'')"
    by (rule match_number_plain [OF d ds _ e]) simp
  from d have f: "filter is_digit (replicate m (CHR ''1'')) = replicate m (CHR ''1'')"
    by (induction m) simp_all
  show ?thesis
    unfolding scan_atom_def by (simp add: m d f)
qed

lemma long_integer_loads:
  assumes "decode_depth lim \<noteq> 0"
  shows "json_loads lim (long_integer (Suc m)) =
     (if too_many_digits lim (Suc m) then Inl ValueError
      else Inr (JArr [JInt (parse_int (CHR ''1'' # replicate m (CHR ''1'')))]))"
proof -
  let ?s = "CHR ''1'' # replicate m (CHR ''1'') @ '']''"
  have nw: "\<not> is_ws (CHR ''1'')" by (simp add: is_ws_def)
  have a: "scan_once lim (decode_depth lim - Suc 0) ?s = scan_atom lim ?s"
    by (rule scan_once_atom) simp_all
  have "array_items lim (decode_depth lim - Suc 0) ?s [] =
     (if too_many_digits lim (Suc m) then Inl ValueError
      else Inr (JArr [JInt (parse_int (CHR ''1'' # replicate m (CHR ''1'')))], []))"
    by (subst array_items.simps)
      (simp add: a scan_atom_ones skip_ws_not_ws not_ws_special)
  with assms show ?thesis
    by (simp add: json_loads_def long_integer_def scan_once_array skip_ws_not_ws
        not_ws_special nw skip_ws_def)
qed

lemma long_integer_not_read:
  assumes "max_str_digits lim \<noteq> 0" and "max_str_digits lim < n" and "decode_depth lim \<noteq> 0"
  shows "json_loads lim (long_integer n) = Inl ValueError"
proof -
  from assms(2) obtain m where n: "n = Suc m" by (cases n) simp_all
  with assms(1,2) have "too_many_digits lim (Suc m)" by (simp add: too_many_digits_def)
  with long_integer_loads [OF assms(3), of m] n show ?thesis by simp
qed

lemma long_integer_document:
  "valid_utf8 (long_integer n)"
  "0 < n \<Longrightarrow> \<exists>i. json_decode (long_integer n) = Some (JArr [JInt i])"
proof -
  show "valid_utf8 (long_integer n)"
    by (rule ascii_valid_utf8) (auto simp: long_integer_def)
  assume "0 < n"
  then obtain m where n: "n = Suc m" by (cases n) simp_all
  let ?lim = "\<lparr>decode_depth = length (long_integer n), encode_depth = 0, max_str_digits = 0\<rparr>"
  have "decode_depth ?lim \<noteq> 0" by (simp add: long_integer_def)
  from long_integer_loads [OF this, of m] n
  show "\<exists>i. json_decode (long_integer n) = Some (JArr [JInt i])"
    by (simp add: json_decode_def too_many_digits_def)
qed

section \<open>The claims\<close>

subsection \<open>C1\<close>

text \<open>
  C1. After every mutating call that succeeds (\<^verbatim>\<open>set\<close>, \<^verbatim>\<open>delete\<close> of a key that is
  present, \<^verbatim>\<open>update\<close>, \<^verbatim>\<open>clear\<close>), the store's file holds text that decodes to exactly
  the data in memory: the text is a JSON document and the value it denotes is the
  store's data, and loading the file at that moment, in any interpreter whose limits the
  data is within, gives the store's data. The values are Python values whose
  dictionaries have distinct keys and whose floats are finite.
\<close>

theorem disk_matches_memory:
  assumes "wf_json (data db)"
  shows "(wf_json v \<longrightarrow> set_db lim w f db k v = (w', db', Inr ()) \<longrightarrow>
            on_disk w' db' \<and> (\<forall>lim'. readable lim' (data db') \<longrightarrow>
              load_data lim' w' None (file_path db') = (w', Inr (data db'))))
     \<and> (delete lim w f db k = (w', db', Inr True) \<longrightarrow>
            on_disk w' db' \<and> (\<forall>lim'. readable lim' (data db') \<longrightarrow>
              load_data lim' w' None (file_path db') = (w', Inr (data db'))))
     \<and> (wf_items us \<longrightarrow> update lim w f db us = (w', db', Inr ()) \<longrightarrow>
            on_disk w' db' \<and> (\<forall>lim'. readable lim' (data db') \<longrightarrow>
              load_data lim' w' None (file_path db') = (w', Inr (data db'))))
     \<and> (clear lim w f db = (w', db', Inr ()) \<longrightarrow>
            on_disk w' db' \<and> (\<forall>lim'. readable lim' (data db') \<longrightarrow>
              load_data lim' w' None (file_path db') = (w', Inr (data db'))))"
proof -
  have l: "on_disk w' db' \<and> (\<forall>lim'. readable lim' (data db') \<longrightarrow>
      load_data lim' w' None (file_path db') = (w', Inr (data db')))"
    if "saved w' db' \<and> wf_json (data db') \<and> file_path db' = file_path db"
    using that saved_facts [of w' db'] by blast
  from assms set_db_saved [of lim w f db k v w' db'] l
  have 1: "wf_json v \<longrightarrow> set_db lim w f db k v = (w', db', Inr ()) \<longrightarrow>
      on_disk w' db' \<and> (\<forall>lim'. readable lim' (data db') \<longrightarrow>
        load_data lim' w' None (file_path db') = (w', Inr (data db')))"
    by blast
  from assms delete_saved [of lim w f db k w' db'] l
  have 2: "delete lim w f db k = (w', db', Inr True) \<longrightarrow>
      on_disk w' db' \<and> (\<forall>lim'. readable lim' (data db') \<longrightarrow>
        load_data lim' w' None (file_path db') = (w', Inr (data db')))"
    by blast
  from assms update_saved [of lim w f db us w' db'] l
  have 3: "wf_items us \<longrightarrow> update lim w f db us = (w', db', Inr ()) \<longrightarrow>
      on_disk w' db' \<and> (\<forall>lim'. readable lim' (data db') \<longrightarrow>
        load_data lim' w' None (file_path db') = (w', Inr (data db')))"
    by blast
  from clear_saved [of lim w f db w' db'] l
  have 4: "clear lim w f db = (w', db', Inr ()) \<longrightarrow>
      on_disk w' db' \<and> (\<forall>lim'. readable lim' (data db') \<longrightarrow>
        load_data lim' w' None (file_path db') = (w', Inr (data db')))"
    by blast
  from 1 2 3 4 show ?thesis by blast
qed

theorem disk_matches_memory_witness:
  "wf_json (data db0) \<and> wf_json (JArr [JStr ''x'', JFloat ''0.5''])
   \<and> (\<exists>w' db'. set_db usual world0 NoFault db0 ''a'' (JArr [JStr ''x'', JFloat ''0.5''])
           = (w', db', Inr ())
         \<and> data db' = JObj [(''b'', JInt 1), (''a'', JArr [JStr ''x'', JFloat ''0.5''])]
         \<and> on_disk w' db'
         \<and> readable usual (data db')
         \<and> load_data usual w' None (file_path db') = (w', Inr (data db')))"
proof -
  let ?v = "JArr [JStr ''x'', JFloat ''0.5'']"
  have wf: "wf_json (data db0)" by (simp add: db0_def)
  have wfv: "wf_json ?v" by code_simp
  obtain w' db' r where run: "set_db usual world0 NoFault db0 ''a'' ?v = (w', db', r)"
    by (metis prod_cases3)
  have "snd (snd (set_db usual world0 NoFault db0 ''a'' ?v)) = Inr ()" by code_simp
  with run have r: "r = Inr ()" by simp
  have "data (fst (snd (set_db usual world0 NoFault db0 ''a'' ?v)))
      = JObj [(''b'', JInt 1), (''a'', ?v)]" by code_simp
  with run have d: "data db' = JObj [(''b'', JInt 1), (''a'', ?v)]" by simp
  have "readable usual (JObj [(''b'', JInt 1), (''a'', ?v)])" by code_simp
  with d have rd: "readable usual (data db')" by simp
  from disk_matches_memory [where db = db0 and v = ?v and w = world0 and f = NoFault
      and k = "''a''" and w' = w' and db' = db' and lim = usual, OF wf] wfv run r
  have "on_disk w' db' \<and> (\<forall>lim'. readable lim' (data db') \<longrightarrow>
      load_data lim' w' None (file_path db') = (w', Inr (data db')))"
    by simp
  with rd have "on_disk w' db' \<and> load_data usual w' None (file_path db') = (w', Inr (data db'))"
    by blast
  with wf wfv run r d rd show ?thesis by blast
qed

subsection \<open>C2\<close>

text \<open>
  C2. A save that fails should leave the file that was saved before as it was. For a
  store whose path ends in \<^verbatim>\<open>.tmp\<close> the temporary path is the store's own path: the
  store at \<^verbatim>\<open>cache.tmp\<close> holds \<open>{"b": 1}\<close>, on disk as well; \<^verbatim>\<open>set("a", 2)\<close> when the disk
  is full (the write fails before any character is written) raises the
  \<^verbatim>\<open>IOError\<close> that carries the cause and keeps the new entry in memory, but the
  store's file has been truncated: it is now empty, which is not a JSON document.
\<close>

theorem failed_save_truncates_tmp_store:
  "with_suffix (file_path tmp_db) ''.tmp'' = Inr (file_path tmp_db)
   \<and> files tmp_world ''cache.tmp'' = Some (json_dumps (JObj [(''b'', JInt 1)]))
   \<and> json_loads usual (json_dumps (JObj [(''b'', JInt 1)])) = Inr (JObj [(''b'', JInt 1)])
   \<and> snd (snd (set_db usual tmp_world (WriteFails 0 ENOSPC) tmp_db ''a'' (JInt 2)))
       = Inl (IOError ''cache.tmp'' ENOSPC)
   \<and> data (fst (snd (set_db usual tmp_world (WriteFails 0 ENOSPC) tmp_db ''a'' (JInt 2))))
       = JObj [(''b'', JInt 1), (''a'', JInt 2)]
   \<and> files (fst (set_db usual tmp_world (WriteFails 0 ENOSPC) tmp_db ''a'' (JInt 2))) ''cache.tmp''
       = Some []
   \<and> json_loads usual [] = Inl JSONDecodeError
   \<and> json_decode [] = None"
proof -
  have 1: "with_suffix (file_path tmp_db) ''.tmp'' = Inr (file_path tmp_db)"
    by code_simp
  have 2: "files tmp_world ''cache.tmp'' = Some (json_dumps (JObj [(''b'', JInt 1)]))"
    by (simp add: tmp_world_def tmp_db_def)
  have 3: "json_loads usual (json_dumps (JObj [(''b'', JInt 1)])) = Inr (JObj [(''b'', JInt 1)])"
    by code_simp
  have 4: "snd (snd (set_db usual tmp_world (WriteFails 0 ENOSPC) tmp_db ''a'' (JInt 2)))
       = Inl (IOError ''cache.tmp'' ENOSPC)"
    by code_simp
  have 5: "data (fst (snd (set_db usual tmp_world (WriteFails 0 ENOSPC) tmp_db ''a'' (JInt 2))))
       = JObj [(''b'', JInt 1), (''a'', JInt 2)]"
    by code_simp
  have 6: "files (fst (set_db usual tmp_world (WriteFails 0 ENOSPC) tmp_db ''a'' (JInt 2))) ''cache.tmp''
       = Some []"
    by code_simp
  have 7: "json_loads usual [] = Inl JSONDecodeError" by code_simp
  have 8: "json_decode [] = None" by code_simp
  from 1 2 3 4 5 6 7 8 show ?thesis by blast
qed

subsection \<open>C3\<close>

text \<open>
  C3, within the limits of the interpreter. A store is constructed on a path where no
  file exists, and any sequence of \<^verbatim>\<open>set\<close> calls is made, all of which succeed. When
  the data of the store is then within the limits of the interpreter that constructs a
  second store on the same path (its lists and dictionaries are no deeper than the
  decoder can go, its integers have no more digits than it converts), the second store
  has the same data as the first: \<^verbatim>\<open>get\<close> returns the same value for every key (those
  that were set among them). Writing the data and reading it back loses nothing, for
  Python values whose dictionaries have distinct keys and whose floats are finite.
\<close>

theorem restart_keeps_values:
  assumes fresh: "files w p = None"
    and first: "init lim0 w None None p = (w0, Inr db0')"
    and run: "set_all w0 db0' cs = (w1, db1, Inr ())"
    and wfv: "\<forall>(k, v, f, lim) \<in> set cs. wf_json v"
    and rd: "readable lim2 (data db1)"
  shows "\<exists>w2 db2. init lim2 w1 None None p = (w2, Inr db2) \<and> data db2 = data db1
    \<and> (\<forall>k dflt. get db2 k dflt = get db1 k dflt)
    \<and> (\<forall>(k, v, f, lim) \<in> set cs. \<forall>dflt. get db2 k dflt = get db1 k dflt)"
proof -
  from fresh first have w0: "w0 = w\<lparr>log := log w @ [MakeDirs (path_parent p)]\<rparr>"
    and d0: "db0' = \<lparr>file_path = p, data = JObj []\<rparr>"
    by (auto simp: init_no_mkdir_fault load_data_def open_read_def)
  from fresh w0 d0 have sync: "in_sync w0 db0'" by (simp add: in_sync_def)
  from d0 have wf: "wf_json (data db0')" by simp
  from set_all_in_sync [OF run sync wf wfv] d0
  have s1: "in_sync w1 db1" and wf1: "wf_json (data db1)" and p1: "file_path db1 = p"
    by simp_all
  from in_sync_init [OF s1 wf1 rd] p1
  have i: "init lim2 w1 None None p =
      (w1\<lparr>log := log w1 @ [MakeDirs (path_parent p)]\<rparr>, Inr \<lparr>file_path = p, data = data db1\<rparr>)"
    by simp
  have "\<forall>k dflt. get \<lparr>file_path = p, data = data db1\<rparr> k dflt = get db1 k dflt"
    by (simp add: get_def)
  with i show ?thesis by auto
qed

theorem restart_keeps_values_witness:
  "files world0 ''s/db.json'' = None
   \<and> (\<exists>w0 d0 w1 db1 w2 db2.
        init usual world0 None None ''s/db.json'' = (w0, Inr d0)
      \<and> set_all w0 d0 [(''theme'', JStr ''dark'', NoFault, usual),
            (''volume'', JFloat ''0.8'', NoFault, usual),
            (''theme'', JStr ''light'', NoFault, usual)] = (w1, db1, Inr ())
      \<and> wf_json (JStr ''dark'') \<and> wf_json (JFloat ''0.8'') \<and> wf_json (JStr ''light'')
      \<and> readable usual (data db1)
      \<and> init usual w1 None None ''s/db.json'' = (w2, Inr db2)
      \<and> get db1 ''theme'' JNull = Inr (JStr ''light'') \<and> get db2 ''theme'' JNull = Inr (JStr ''light'')
      \<and> get db1 ''volume'' JNull = Inr (JFloat ''0.8'')
      \<and> get db2 ''volume'' JNull = Inr (JFloat ''0.8''))"
proof -
  let ?p = "''s/db.json''"
  let ?cs = "[(''theme'', JStr ''dark'', NoFault, usual),
            (''volume'', JFloat ''0.8'', NoFault, usual),
            (''theme'', JStr ''light'', NoFault, usual)]"
  let ?d0 = "\<lparr>file_path = ?p, data = JObj []\<rparr>"
  let ?w0 = "world0\<lparr>log := log world0 @ [MakeDirs (path_parent ?p)]\<rparr>"
  have fresh: "files world0 ?p = None" by (simp add: world0_def)
  have first: "init usual world0 None None ?p = (?w0, Inr ?d0)"
    using fresh by (simp add: init_no_mkdir_fault load_data_def open_read_def)
  obtain w1 db1 r where run0: "set_all ?w0 ?d0 ?cs = (w1, db1, r)" by (metis prod_cases3)
  have "snd (snd (set_all ?w0 ?d0 ?cs)) = Inr ()" by code_simp
  with run0 have run: "set_all ?w0 ?d0 ?cs = (w1, db1, Inr ())" by simp
  have "data (fst (snd (set_all ?w0 ?d0 ?cs)))
      = JObj [(''theme'', JStr ''light''), (''volume'', JFloat ''0.8'')]" by code_simp
  with run0 have d1: "data db1 = JObj [(''theme'', JStr ''light''), (''volume'', JFloat ''0.8'')]"
    by simp
  have wff: "wf_json (JFloat ''0.8'')" by code_simp
  then have wfv: "\<forall>(k, v, f, lim) \<in> set ?cs. wf_json v" by simp
  have "readable usual (JObj [(''theme'', JStr ''light''), (''volume'', JFloat ''0.8'')])"
    by code_simp
  with d1 have rd: "readable usual (data db1)" by simp
  from restart_keeps_values [OF fresh first run wfv rd] obtain w2 db2 where
    i2: "init usual w1 None None ?p = (w2, Inr db2)"
    and g: "\<forall>k dflt. get db2 k dflt = get db1 k dflt"
    by blast
  from d1 have g1: "get db1 ''theme'' JNull = Inr (JStr ''light'')"
    "get db1 ''volume'' JNull = Inr (JFloat ''0.8'')"
    by (simp_all add: get_def dict_get_def)
  with g have g2: "get db2 ''theme'' JNull = Inr (JStr ''light'')"
    "get db2 ''volume'' JNull = Inr (JFloat ''0.8'')"
    by simp_all
  from fresh first run wff rd i2 g1 g2 show ?thesis by auto
qed

text \<open>
  C3, as stated, fails: not every value that a \<^verbatim>\<open>set\<close> writes can be read back. The
  encoder goes deeper than the decoder. With the usual limits, a fresh store takes
  \<^verbatim>\<open>set("k", v)\<close> for a list \<open>v\<close> nested 990 deep (a JSON-representable value) and
  saves it; constructing a second store on the same path raises
  \<^verbatim>\<open>RecursionError\<close>, which \<^verbatim>\<open>load_data\<close> does not catch, so there is no second
  store to \<^verbatim>\<open>get\<close> from.
\<close>

theorem restart_fails_on_deep_value:
  "files world0 ''s/db.json'' = None \<and> wf_json (deep 989) \<and> depth (deep 989) = 990
   \<and> (\<exists>w0 d0 w1 db1.
        init usual world0 None None ''s/db.json'' = (w0, Inr d0)
      \<and> set_all w0 d0 [(''k'', deep 989, NoFault, usual)] = (w1, db1, Inr ())
      \<and> get db1 ''k'' JNull = Inr (deep 989)
      \<and> on_disk w1 db1
      \<and> init usual w1 None None ''s/db.json''
          = (w1\<lparr>log := log w1 @ [MakeDirs (path_parent ''s/db.json'')]\<rparr>, Inl RecursionError))"
proof -
  let ?p = "''s/db.json''"
  let ?d0 = "\<lparr>file_path = ?p, data = JObj []\<rparr>"
  let ?w0 = "world0\<lparr>log := log world0 @ [MakeDirs (path_parent ?p)]\<rparr>"
  let ?d1 = "\<lparr>file_path = ?p, data = JObj [(''k'', deep 989)]\<rparr>"
  let ?doc = "json_dumps (JObj [(''k'', deep 989)])"
  let ?w1 = "replace_file (write_file ?w0 ''s/db.tmp'' ?doc) ''s/db.tmp'' ?p"
  have fresh: "files world0 ?p = None" by (simp add: world0_def)
  have first: "init usual world0 None None ?p = (?w0, Inr ?d0)"
    using fresh by (simp add: init_no_mkdir_fault load_data_def open_read_def)
  have t: "with_suffix (file_path ?d1) ''.tmp'' = Inr ''s/db.tmp''" by code_simp
  have e: "989 + 2 \<le> encode_depth usual" by (simp add: usual_def)
  from deep_written [OF e]
  have jd: "json_dump usual (data ?d1) = (?doc, None)" and v: "valid_utf8 ?doc"
    by simp_all
  from save_data_NoFault [OF t jd v, of ?w0]
  have sv: "save_data usual ?w0 NoFault ?d1 = (?w1, Inr ())" by simp
  then have run: "set_all ?w0 ?d0 [(''k'', deep 989, NoFault, usual)] = (?w1, ?d1, Inr ())"
    by (simp add: set_db_def)
  have g: "get ?d1 ''k'' JNull = Inr (deep 989)" by (simp add: get_def dict_get_def)
  have wf: "wf_json (data ?d1)" by (simp add: deep_facts)
  from save_data_saved [OF sv] have "saved ?w1 ?d1" .
  from saved_on_disk [OF this wf] have od: "on_disk ?w1 ?d1" .
  have f1: "files ?w1 ?p = Some ?doc" by (rule files_after_save)
  have "decode_depth usual \<le> Suc 989" by (simp add: usual_def)
  from deep_not_read [OF this] have nr: "json_loads usual ?doc = Inl RecursionError" .
  have i: "init usual ?w1 None None ?p
      = (?w1\<lparr>log := log ?w1 @ [MakeDirs (path_parent ?p)]\<rparr>, Inl RecursionError)"
    using f1 v nr by (simp add: init_no_mkdir_fault load_data_def open_read_def)
  have wfd: "wf_json (deep 989)" by (rule deep_facts)
  have dp: "depth (deep 989) = 990" by (simp add: deep_facts)
  from fresh wfd dp first run g od i show ?thesis by blast
qed

subsection \<open>C4\<close>




subsection \<open>C5\<close>

text \<open>
  C5. For every dictionary of updates, \<^verbatim>\<open>update\<close> merges all its entries into the store:
  a key of the updates reads as its new value, every other key reads as before. The
  whole batch is saved once, however many keys it has: the call adds at most one file
  write and at most one replace to the file-system calls, and when it succeeds it adds
  exactly the write of the temporary file followed by its rename onto the store's file,
  which then holds the merged mapping.
\<close>

theorem update_merges_and_saves_once:
  assumes d: "data db = JObj kvs" and du: "distinct (map fst updates)"
    and run: "update lim w f db updates = (w', db', r)"
  shows "(\<forall>k dflt. get db' k dflt =
            Inr (case map_of updates k of Some v \<Rightarrow> v | None \<Rightarrow> dict_get kvs k dflt))
    \<and> (\<forall>k. exists db' k = Inr (dict_contains kvs k \<or> k \<in> fst ` set updates))
    \<and> (\<exists>evs. log w' = log w @ evs
          \<and> length (filter is_write evs) \<le> 1 \<and> length (filter is_replace evs) \<le> 1
          \<and> (r = Inr () \<longrightarrow>
                (\<exists>tmp. with_suffix (file_path db) ''.tmp'' = Inr tmp
                   \<and> evs = [WriteFile tmp (json_dumps (data db')), ReplaceFile tmp (file_path db)]
                   \<and> files w' (file_path db) = Some (json_dumps (data db')))))"
proof -
  let ?db = "db\<lparr>data := JObj (dict_update kvs updates)\<rparr>"
  from run d have db': "db' = ?db" and s: "save_data lim w f ?db = (w', r)"
    by (auto simp: update_def Let_def split: prod.splits)
  have g: "\<forall>k dflt. get db' k dflt =
      Inr (case map_of updates k of Some v \<Rightarrow> v | None \<Rightarrow> dict_get kvs k dflt)"
    by (auto simp: db' get_def dict_get_def map_of_dict_update [OF du] map_add_def
        split: option.splits)
  have e: "\<forall>k. exists db' k = Inr (dict_contains kvs k \<or> k \<in> fst ` set updates)"
    by (simp add: db' exists_def py_contains_def dict_contains_keys keys_dict_update)
  from save_data_log [OF s] obtain evs where
    l: "log w' = log w @ evs" "length (filter is_write evs) \<le> 1"
      "length (filter is_replace evs) \<le> 1"
    by blast
  have ok: "r = Inr () \<longrightarrow>
      (\<exists>tmp. with_suffix (file_path db) ''.tmp'' = Inr tmp
         \<and> evs = [WriteFile tmp (json_dumps (data db')), ReplaceFile tmp (file_path db)]
         \<and> files w' (file_path db) = Some (json_dumps (data db')))"
  proof
    assume "r = Inr ()"
    with s have "save_data lim w f ?db = (w', Inr ())" by simp
    then obtain tmp doc where t: "with_suffix (file_path ?db) ''.tmp'' = Inr tmp"
      and jd: "json_dump lim (data ?db) = (doc, None)"
      and w': "w' = replace_file (write_file w tmp doc) tmp (file_path ?db)"
      by (rule save_data_success)
    from json_dump_text [OF jd] have doc: "doc = json_dumps (data ?db)" .
    from w' l(1) have "evs = [WriteFile tmp doc, ReplaceFile tmp (file_path ?db)]"
      by (simp add: log_after_save)
    with t w' doc show "\<exists>tmp. with_suffix (file_path db) ''.tmp'' = Inr tmp
         \<and> evs = [WriteFile tmp (json_dumps (data db')), ReplaceFile tmp (file_path db)]
         \<and> files w' (file_path db) = Some (json_dumps (data db'))"
      by (simp add: db' files_after_save)
  qed
  from g e l ok show ?thesis by blast
qed

theorem update_merges_and_saves_once_witness:
  "data db0 = JObj [(''b'', JInt 1)]
   \<and> distinct (map fst [(''a'', JInt 5), (''b'', JInt 6), (''c'', JNull)])
   \<and> (\<exists>w' db'. update usual world0 NoFault db0 [(''a'', JInt 5), (''b'', JInt 6), (''c'', JNull)]
           = (w', db', Inr ())
         \<and> get db' ''a'' JNull = Inr (JInt 5) \<and> get db' ''b'' JNull = Inr (JInt 6)
         \<and> length (filter is_write (log w')) = 1 \<and> length (filter is_replace (log w')) = 1)"
proof -
  let ?us = "[(''a'', JInt 5), (''b'', JInt 6), (''c'', JNull)]"
  have d: "data db0 = JObj [(''b'', JInt 1)]" by (simp add: db0_def)
  have du: "distinct (map fst ?us)" by simp
  obtain w' db' r where run: "update usual world0 NoFault db0 ?us = (w', db', r)"
    by (metis prod_cases3)
  have ok: "snd (snd (update usual world0 NoFault db0 ?us)) = Inr ()" by code_simp
  with run have r: "r = Inr ()" by simp
  note u = update_merges_and_saves_once [OF d du run]
  from u have g: "get db' ''a'' JNull = Inr (JInt 5)" "get db' ''b'' JNull = Inr (JInt 6)"
    by simp_all
  from u r obtain tmp where
    "log w' = log world0 @ [WriteFile tmp (json_dumps (data db')), ReplaceFile tmp (file_path db0)]"
    by auto
  then have "length (filter is_write (log w')) = 1" "length (filter is_replace (log w')) = 1"
    by (simp_all add: world0_def is_write_def is_replace_def)
  with run r g d du show ?thesis by simp
qed

subsection \<open>C6\<close>

text \<open>
  C6. \<^verbatim>\<open>delete(k)\<close> returns true exactly when \<open>k\<close> is present; that call removes \<open>k\<close>
  (every other key keeps its value) and saves once, returning true when the save
  succeeds and raising the save's exception otherwise. When \<open>k\<close> is absent it returns
  false, the world (files and file-system calls) and the mapping are unchanged. After a
  delete of a present key, every further \<^verbatim>\<open>delete(k)\<close> returns false and changes nothing,
  and after \<open>k\<close> is set again a \<^verbatim>\<open>delete(k)\<close> no longer returns false.
\<close>

theorem delete_semantics:
  assumes d: "data db = JObj kvs" and dist: "distinct (map fst kvs)"
    and run: "delete lim w f db k = (w', db', r)"
  shows "(r = Inr True \<longrightarrow> dict_contains kvs k)
    \<and> (r = Inr False \<longleftrightarrow> \<not> dict_contains kvs k)
    \<and> (\<not> dict_contains kvs k \<longrightarrow> w' = w \<and> db' = db)
    \<and> (dict_contains kvs k \<longrightarrow>
          db' = db\<lparr>data := JObj (dict_delitem kvs k)\<rparr>
          \<and> exists db' k = Inr False
          \<and> (\<forall>k' dflt. k' \<noteq> k \<longrightarrow> get db' k' dflt = get db k' dflt)
          \<and> (\<exists>r1. save_data lim w f db' = (w', r1)
                \<and> r = (case r1 of Inl x \<Rightarrow> Inl x | Inr _ \<Rightarrow> Inr True))
          \<and> (\<forall>lim2 w2 f2. delete lim2 w2 f2 db' k = (w2, db', Inr False))
          \<and> (\<forall>lim2 w2 f2 v w3 db3 r3 lim4 w4 f4 w5 db5 r5.
                set_db lim2 w2 f2 db' k v = (w3, db3, r3)
                \<longrightarrow> delete lim4 w4 f4 db3 k = (w5, db5, r5)
                \<longrightarrow> r5 \<noteq> Inr False))"
proof (cases "dict_contains kvs k")
  case False
  with delete_absent [OF d False, of lim w f] run show ?thesis by simp
next
  case True
  let ?db = "db\<lparr>data := JObj (dict_delitem kvs k)\<rparr>"
  obtain w1 r1 where s: "save_data lim w f ?db = (w1, r1)" by (cases "save_data lim w f ?db")
  from delete_present [OF d True, of lim w f] run s
  have db': "db' = ?db" and w': "w' = w1"
    and r: "r = (case r1 of Inl x \<Rightarrow> Inl x | Inr _ \<Rightarrow> Inr True)"
    by (auto split: sum.splits)
  have dd: "data ?db = JObj (dict_delitem kvs k)" by simp
  have gone: "\<not> dict_contains (dict_delitem kvs k) k"
    using dist by (rule not_contains_after_delitem)
  have e: "exists db' k = Inr False"
    using gone by (simp add: db' exists_def py_contains_def)
  have g: "\<forall>k' dflt. k' \<noteq> k \<longrightarrow> get db' k' dflt = get db k' dflt"
    by (simp add: db' get_def d dict_get_def map_of_dict_delitem [OF dist])
  have sv: "\<exists>r1. save_data lim w f db' = (w', r1)
      \<and> r = (case r1 of Inl x \<Rightarrow> Inl x | Inr _ \<Rightarrow> Inr True)"
    using s by (simp add: db' w' r)
  have again: "\<forall>lim2 w2 f2. delete lim2 w2 f2 db' k = (w2, db', Inr False)"
    using delete_absent [OF dd gone] by (simp add: db')
  have reset: "\<forall>lim2 w2 f2 v w3 db3 r3 lim4 w4 f4 w5 db5 r5.
      set_db lim2 w2 f2 db' k v = (w3, db3, r3)
      \<longrightarrow> delete lim4 w4 f4 db3 k = (w5, db5, r5)
      \<longrightarrow> r5 \<noteq> Inr False"
  proof (intro allI impI)
    fix lim2 w2 f2 v w3 db3 r3 lim4 w4 f4 w5 db5 r5
    assume st: "set_db lim2 w2 f2 db' k v = (w3, db3, r3)"
      and dl: "delete lim4 w4 f4 db3 k = (w5, db5, r5)"
    from st have d3: "data db3 = JObj (dict_setitem (dict_delitem kvs k) k v)"
      by (auto simp: set_db_def db' Let_def split: prod.splits)
    have c3: "dict_contains (dict_setitem (dict_delitem kvs k) k v) k"
      by (simp add: dict_contains_keys keys_dict_setitem)
    from delete_present [OF d3 c3, of lim4 w4 f4] dl show "r5 \<noteq> Inr False"
      by (auto split: prod.splits sum.splits)
  qed
  from True r db' e g sv again reset show ?thesis
    by (auto split: sum.splits)
qed

theorem delete_semantics_witness:
  "data db0 = JObj [(''b'', JInt 1)] \<and> distinct (map fst [(''b'', JInt 1)])
   \<and> (\<exists>w' db'. delete usual world0 NoFault db0 ''b'' = (w', db', Inr True)
         \<and> exists db0 ''b'' = Inr True \<and> exists db' ''b'' = Inr False
         \<and> delete usual w' NoFault db' ''b'' = (w', db', Inr False))"
proof -
  have d: "data db0 = JObj [(''b'', JInt 1)]" by (simp add: db0_def)
  have dist: "distinct (map fst [(''b'', JInt 1 :: json)])" by simp
  have c: "dict_contains [(''b'', JInt 1 :: json)] ''b''" by (simp add: dict_contains_def)
  obtain w' db' r where run: "delete usual world0 NoFault db0 ''b'' = (w', db', r)"
    by (metis prod_cases3)
  have ok: "snd (save_data usual world0 NoFault (db0\<lparr>data := JObj []\<rparr>)) = Inr ()"
    by code_simp
  note sem = delete_semantics [OF d dist run]
  from sem c obtain r1 where db': "db' = db0\<lparr>data := JObj []\<rparr>"
    and s: "save_data usual world0 NoFault db' = (w', r1)"
    and r: "r = (case r1 of Inl x \<Rightarrow> Inl x | Inr _ \<Rightarrow> Inr True)"
    by auto
  from s ok db' have "r1 = Inr ()" by simp
  with r have rt: "r = Inr True" by simp
  from sem c have e: "exists db' ''b'' = Inr False"
    and ag: "delete usual w' NoFault db' ''b'' = (w', db', Inr False)" by auto
  have e0: "exists db0 ''b'' = Inr True"
    by (simp add: exists_dict [OF d] dict_contains_def)
  from run rt e ag e0 d dist show ?thesis by auto
qed

subsection \<open>C7\<close>

text \<open>
  C7, as the code has it. \<^verbatim>\<open>get_all\<close> returns a new dictionary that has, at the moment of
  the call, the entries of the store's dictionary, so the two have the same value.
  Whatever the caller then does to the returned dictionary itself (adding, removing or
  rebinding its keys) does not change the value of the store's data. The lists and
  dictionaries inside it are the store's own: the copy is shallow.
\<close>

theorem get_all_copy_is_shallow:
  assumes ok: "heap_ok h" and d: "val_ok (length h) d"
    and run: "get_all_heap h d = Inr (h', c)"
  shows "c = VRef (length h) \<and> c \<noteq> d
    \<and> (\<exists>a. d = VRef a \<and> lookup h' (length h) = lookup h a)
    \<and> (\<forall>n. value_of n h' c = value_of n h d)
    \<and> (\<forall>n. value_of n h' d = value_of n h d)
    \<and> (\<forall>n obj. value_of n (h'[length h := obj]) d = value_of n h d)"
  using assms by (rule get_all_heap_copy)

theorem get_all_copy_is_shallow_witness:
  "heap_ok heap1 \<and> val_ok (length heap1) (VRef 0)
   \<and> get_all_heap heap1 (VRef 0) = Inr (heap1 @ [ODict [(''xs'', VRef 1)]], VRef 2)
   \<and> value_of 2 (heap1 @ [ODict [(''xs'', VRef 1)]]) (VRef 2) = Some (JObj [(''xs'', JArr [JInt 1])])
   \<and> value_of 2 heap1 (VRef 0) = Some (JObj [(''xs'', JArr [JInt 1])])
   \<and> value_of 2 (obj_setitem (heap1 @ [ODict [(''xs'', VRef 1)]]) 2 ''xs'' VNone) (VRef 2)
        = Some (JObj [(''xs'', JNull)])
   \<and> value_of 2 (obj_setitem (heap1 @ [ODict [(''xs'', VRef 1)]]) 2 ''xs'' VNone) (VRef 0)
        = Some (JObj [(''xs'', JArr [JInt 1])])"
proof -
  let ?h' = "heap1 @ [ODict [(''xs'', VRef 1)]]"
  have ok: "heap_ok heap1" by (simp add: heap_ok_def heap1_def)
  have d: "val_ok (length heap1) (VRef 0)" by (simp add: heap1_def)
  have run: "get_all_heap heap1 (VRef 0) = Inr (?h', VRef 2)"
    by (simp add: get_all_heap_def lookup_def heap1_def)
  have v0: "value_of 2 heap1 (VRef 0) = Some (JObj [(''xs'', JArr [JInt 1])])"
    by code_simp
  have m: "obj_setitem ?h' 2 ''xs'' VNone = ?h'[length heap1 := ODict [(''xs'', VNone)]]"
    by (simp add: obj_setitem_def lookup_def heap1_def)
  have vm: "value_of 2 (obj_setitem ?h' 2 ''xs'' VNone) (VRef 2) = Some (JObj [(''xs'', JNull)])"
    by code_simp
  note s = get_all_copy_is_shallow [OF ok d run]
  from s have "value_of 2 ?h' (VRef 2) = value_of 2 heap1 (VRef 0)" by blast
  with v0 have vc: "value_of 2 ?h' (VRef 2) = Some (JObj [(''xs'', JArr [JInt 1])])"
    by (simp only:)
  from s have "value_of 2 (?h'[length heap1 := ODict [(''xs'', VNone)]]) (VRef 0)
      = value_of 2 heap1 (VRef 0)" by blast
  with v0 m
  have vs: "value_of 2 (obj_setitem ?h' 2 ''xs'' VNone) (VRef 0) = Some (JObj [(''xs'', JArr [JInt 1])])"
    by (simp only:)
  from ok d run vc v0 vm vs show ?thesis by blast
qed

text \<open>
  C7, as stated, fails. The store holds \<open>{"xs": [1]}\<close>. The caller takes
  \<^verbatim>\<open>c = get_all()\<close>, which has the same value, and appends to the list inside it:
  \<^verbatim>\<open>c["xs"].append(2)\<close>. The list is the store's own list (address 1), so the store's
  data is now \<open>{"xs": [1, 2]}\<close>.
\<close>

theorem get_all_shares_nested_objects:
  "get_all_heap heap1 (VRef 0) = Inr (heap1 @ [ODict [(''xs'', VRef 1)]], VRef 2)
   \<and> value_of 2 heap1 (VRef 0) = Some (JObj [(''xs'', JArr [JInt 1])])
   \<and> value_of 2 (heap1 @ [ODict [(''xs'', VRef 1)]]) (VRef 2) = Some (JObj [(''xs'', JArr [JInt 1])])
   \<and> lookup (heap1 @ [ODict [(''xs'', VRef 1)]]) 2 = Some (ODict [(''xs'', VRef 1)])
   \<and> value_of 2 (list_append (heap1 @ [ODict [(''xs'', VRef 1)]]) 1 (VInt 2)) (VRef 0)
        = Some (JObj [(''xs'', JArr [JInt 1, JInt 2])])
   \<and> value_of 2 (list_append (heap1 @ [ODict [(''xs'', VRef 1)]]) 1 (VInt 2)) (VRef 0)
        \<noteq> value_of 2 heap1 (VRef 0)"
proof -
  have 1: "get_all_heap heap1 (VRef 0) = Inr (heap1 @ [ODict [(''xs'', VRef 1)]], VRef 2)"
    by (simp add: get_all_heap_def lookup_def heap1_def)
  have 2: "value_of 2 heap1 (VRef 0) = Some (JObj [(''xs'', JArr [JInt 1])])"
    by code_simp
  have 3: "value_of 2 (heap1 @ [ODict [(''xs'', VRef 1)]]) (VRef 2) = Some (JObj [(''xs'', JArr [JInt 1])])"
    by code_simp
  have 4: "lookup (heap1 @ [ODict [(''xs'', VRef 1)]]) 2 = Some (ODict [(''xs'', VRef 1)])"
    by code_simp
  have 5: "value_of 2 (list_append (heap1 @ [ODict [(''xs'', VRef 1)]]) 1 (VInt 2)) (VRef 0)
        = Some (JObj [(''xs'', JArr [JInt 1, JInt 2])])"
    by code_simp
  from 2 5 have 6: "value_of 2 (list_append (heap1 @ [ODict [(''xs'', VRef 1)]]) 1 (VInt 2)) (VRef 0)
        \<noteq> value_of 2 heap1 (VRef 0)"
    by simp
  from 1 2 3 4 5 6 show ?thesis by blast
qed

subsection \<open>C8\<close>

text \<open>
  C8, for documents that the decoder reads. When the file holds text from which the
  decoder returns a value, construction takes that value as the initial state whatever
  its top level is: a document that is a string or an array, not a mapping, is loaded
  as itself, without an error and without a warning.
\<close>

theorem init_keeps_any_document:
  assumes "files w p = Some text" and "valid_utf8 text" and "json_loads lim text = Inr v"
  shows "init lim w None None p =
    (w\<lparr>log := log w @ [MakeDirs (path_parent p)]\<rparr>, Inr \<lparr>file_path = p, data = v\<rparr>)"
  using assms by (simp add: init_no_mkdir_fault load_data_def open_read_def)

theorem init_keeps_any_document_witness:
  "files (world0\<lparr>files := [''db.json'' \<mapsto> ''[1,2]'']\<rparr>) ''db.json'' = Some ''[1,2]''
   \<and> valid_utf8 ''[1,2]'' \<and> json_loads usual ''[1,2]'' = Inr (JArr [JInt 1, JInt 2])
   \<and> snd (init usual (world0\<lparr>files := [''db.json'' \<mapsto> ''[1,2]'']\<rparr>) None None ''db.json'')
       = Inr \<lparr>file_path = ''db.json'', data = JArr [JInt 1, JInt 2]\<rparr>
   \<and> files (world0\<lparr>files := [''s.json'' \<mapsto> [CHR 0x22, CHR ''5'', CHR 0x22]]\<rparr>) ''s.json''
       = Some [CHR 0x22, CHR ''5'', CHR 0x22]
   \<and> valid_utf8 [CHR 0x22, CHR ''5'', CHR 0x22]
   \<and> json_loads usual [CHR 0x22, CHR ''5'', CHR 0x22] = Inr (JStr ''5'')
   \<and> snd (init usual (world0\<lparr>files := [''s.json'' \<mapsto> [CHR 0x22, CHR ''5'', CHR 0x22]]\<rparr>) None None ''s.json'')
       = Inr \<lparr>file_path = ''s.json'', data = JStr ''5''\<rparr>"
proof -
  let ?w = "world0\<lparr>files := [''db.json'' \<mapsto> ''[1,2]'']\<rparr>"
  let ?s = "[CHR 0x22, CHR ''5'', CHR 0x22]"
  let ?w2 = "world0\<lparr>files := [''s.json'' \<mapsto> ?s]\<rparr>"
  have f: "files ?w ''db.json'' = Some ''[1,2]''" by simp
  have v: "valid_utf8 ''[1,2]''" by code_simp
  have j: "json_loads usual ''[1,2]'' = Inr (JArr [JInt 1, JInt 2])" by code_simp
  have f2: "files ?w2 ''s.json'' = Some ?s" by simp
  have v2: "valid_utf8 ?s" by code_simp
  have j2: "json_loads usual ?s = Inr (JStr ''5'')" by code_simp
  from init_keeps_any_document [OF f v j] init_keeps_any_document [OF f2 v2 j2] f v j f2 v2 j2
  show ?thesis by simp
qed

text \<open>
  C8, as stated, fails: not every valid JSON document whose top level is not a mapping
  is parsed without error. A file of 2000 lists, one inside the other, is a valid
  document and denotes a list; so does a file of a list of one integer of 5000 digits.
  Constructing the store on the first raises \<^verbatim>\<open>RecursionError\<close> and on the second
  \<^verbatim>\<open>ValueError\<close>; no value becomes the initial state.
\<close>

theorem init_raises_on_valid_document:
  "valid_utf8 (brackets 2000) \<and> json_decode (brackets 2000) = Some (deep 1999)
   \<and> init usual (world0\<lparr>files := [''db.json'' \<mapsto> brackets 2000]\<rparr>) None None ''db.json''
       = (world0\<lparr>files := [''db.json'' \<mapsto> brackets 2000],
                  log := [MakeDirs (path_parent ''db.json'')]\<rparr>, Inl RecursionError)
   \<and> valid_utf8 (long_integer 5000)
   \<and> (\<exists>i. json_decode (long_integer 5000) = Some (JArr [JInt i]))
   \<and> init usual (world0\<lparr>files := [''db.json'' \<mapsto> long_integer 5000]\<rparr>) None None ''db.json''
       = (world0\<lparr>files := [''db.json'' \<mapsto> long_integer 5000],
                  log := [MakeDirs (path_parent ''db.json'')]\<rparr>, Inl ValueError)"
proof -
  have 1: "valid_utf8 (brackets 2000)" by (rule brackets_document)
  have "json_decode (brackets (Suc 1999)) = Some (deep 1999)" by (rule brackets_document)
  then have 2: "json_decode (brackets 2000) = Some (deep 1999)" by simp
  have "decode_depth usual < 2000" by (simp add: usual_def)
  from brackets_not_read [OF this, of "replicate 2000 (CHR '']'')"]
  have j: "json_loads usual (brackets 2000) = Inl RecursionError" by (simp add: brackets_def)
  have 3: "init usual (world0\<lparr>files := [''db.json'' \<mapsto> brackets 2000]\<rparr>) None None ''db.json''
       = (world0\<lparr>files := [''db.json'' \<mapsto> brackets 2000],
                  log := [MakeDirs (path_parent ''db.json'')]\<rparr>, Inl RecursionError)"
    using 1 j by (simp add: init_no_mkdir_fault load_data_def open_read_def world0_def)
  have 4: "valid_utf8 (long_integer 5000)" by (rule long_integer_document)
  have "0 < (5000 :: nat)" by simp
  from long_integer_document(2) [OF this]
  have 5: "\<exists>i. json_decode (long_integer 5000) = Some (JArr [JInt i])" .
  have "max_str_digits usual \<noteq> 0" "max_str_digits usual < 5000" "decode_depth usual \<noteq> 0"
    by (simp_all add: usual_def)
  from long_integer_not_read [OF this]
  have j2: "json_loads usual (long_integer 5000) = Inl ValueError" .
  have 6: "init usual (world0\<lparr>files := [''db.json'' \<mapsto> long_integer 5000]\<rparr>) None None ''db.json''
       = (world0\<lparr>files := [''db.json'' \<mapsto> long_integer 5000],
                  log := [MakeDirs (path_parent ''db.json'')]\<rparr>, Inl ValueError)"
    using 4 j2 by (simp add: init_no_mkdir_fault load_data_def open_read_def world0_def)
  from 1 2 3 4 5 6 show ?thesis by blast
qed

subsection \<open>C9\<close>

text \<open>
  C9. For every state, every key \<open>k\<close>, every value \<open>v\<close> and every key \<open>k'\<close> other than
  \<open>k\<close>, \<^verbatim>\<open>set(k, v)\<close> leaves what is stored under \<open>k'\<close> as it was: \<^verbatim>\<open>get(k', d)\<close> and
  \<^verbatim>\<open>exists(k')\<close> give the same result before and after the call, whether or not the
  save that ends the call succeeds.
\<close>

theorem set_leaves_other_keys:
  assumes "k' \<noteq> k" and "set_db lim w fault db k v = (w', db', r)"
  shows "get db' k' dflt = get db k' dflt \<and> exists db' k' = exists db k'"
proof (cases "data db")
  case (JObj kvs)
  with assms(2) have "data db' = JObj (dict_setitem kvs k v)"
    by (auto simp: set_db_def Let_def split: prod.splits)
  with JObj assms(1) show ?thesis
    by (simp add: get_def exists_def py_contains_def dict_get_def dict_contains_map_of
        map_of_dict_setitem)
qed (use assms(2) in \<open>auto simp: set_db_def\<close>)

theorem set_leaves_other_keys_witness:
  "''b'' \<noteq> ''a'' \<and>
   (\<exists>w' db' r. set_db usual world0 NoFault db0 ''a'' (JInt 2) = (w', db', r)
      \<and> get db0 ''b'' JNull = Inr (JInt 1) \<and> get db' ''b'' JNull = Inr (JInt 1)
      \<and> exists db0 ''b'' = Inr True \<and> exists db' ''b'' = Inr True)"
proof -
  obtain w' db' r where run: "set_db usual world0 NoFault db0 ''a'' (JInt 2) = (w', db', r)"
    by (metis prod_cases3)
  have ne: "''b'' \<noteq> ''a''" by simp
  have g: "get db0 ''b'' JNull = Inr (JInt 1)"
    by (simp add: get_def db0_def dict_get_def)
  have e: "exists db0 ''b'' = Inr True"
    by (simp add: exists_def py_contains_def db0_def dict_contains_def)
  from set_leaves_other_keys [OF ne run, of JNull] g e run ne show ?thesis by simp
qed

subsection \<open>C10\<close>

text \<open>
  C10. Construction recovers from a missing file and from a JSON decode failure only.
  When opening or reading the file fails for any other reason (the bytes are not UTF-8
  text, the file may not be read), the exception leaves the constructor and no store
  is built.
\<close>

theorem init_propagates_other_read_failures:
  assumes "open_read w rd p = Inl x" and "x \<noteq> OSError ENOENT"
  shows "init lim w None rd p = (w\<lparr>log := log w @ [MakeDirs (path_parent p)]\<rparr>, Inl x)"
proof -
  have "open_read (w\<lparr>log := log w @ [MakeDirs (path_parent p)]\<rparr>) rd p = open_read w rd p"
    by (rule open_read_files) simp
  with assms show ?thesis by (simp add: init_no_mkdir_fault load_data_def)
qed

theorem init_propagates_other_read_failures_witness:
  "open_read (world0\<lparr>files := [''db.json'' \<mapsto> [CHR 0xFF, CHR 0xFE]]\<rparr>) None ''db.json''
     = Inl UnicodeDecodeError
   \<and> UnicodeDecodeError \<noteq> OSError ENOENT
   \<and> snd (init usual (world0\<lparr>files := [''db.json'' \<mapsto> [CHR 0xFF, CHR 0xFE]]\<rparr>) None None ''db.json'')
       = Inl UnicodeDecodeError
   \<and> open_read (world0\<lparr>files := [''db.json'' \<mapsto> ''{}'']\<rparr>) (Some EACCES) ''db.json''
       = Inl (OSError EACCES)
   \<and> OSError EACCES \<noteq> OSError ENOENT
   \<and> snd (init usual (world0\<lparr>files := [''db.json'' \<mapsto> ''{}'']\<rparr>) None (Some EACCES) ''db.json'')
       = Inl (OSError EACCES)"
proof -
  let ?w = "world0\<lparr>files := [''db.json'' \<mapsto> [CHR 0xFF, CHR 0xFE]]\<rparr>"
  let ?w2 = "world0\<lparr>files := [''db.json'' \<mapsto> ''{}'']\<rparr>"
  have nv: "\<not> valid_utf8 [CHR 0xFF, CHR 0xFE]" by code_simp
  then have o: "open_read ?w None ''db.json'' = Inl UnicodeDecodeError"
    by (simp add: open_read_def)
  have n: "UnicodeDecodeError \<noteq> OSError ENOENT" by simp
  have o2: "open_read ?w2 (Some EACCES) ''db.json'' = Inl (OSError EACCES)"
    by (simp add: open_read_def)
  have n2: "OSError EACCES \<noteq> OSError ENOENT" by simp
  from init_propagates_other_read_failures [OF o n, of usual]
    init_propagates_other_read_failures [OF o2 n2, of usual] o o2
  show ?thesis by simp
qed

end
